theory Spec2Isabelle
  imports Main "HOL-Library.AList"
begin

section \<open>Strings, numbers and paths\<close>

text \<open>
  JavaScript strings are modelled by their UTF-8 bytes, so \<open>string\<close> is the byte list of
  the text; every function of the server looks at ASCII characters only
  (\<open>/\<close>, \<open>.\<close>, \<open>%\<close>), which are one byte each.
\<close>

definition endsWith :: "string \<Rightarrow> string \<Rightarrow> bool" where
  "endsWith s e = (length e \<le> length s \<and> drop (length s - length e) s = e)"

definition startsWith :: "string \<Rightarrow> string \<Rightarrow> bool" where
  "startsWith s p = (take (length p) s = p)"

definition toLowerCase_char :: "char \<Rightarrow> char" where
  "toLowerCase_char c =
     (let n = (of_char c :: nat) in if 65 \<le> n \<and> n \<le> 90 then char_of (n + 32) else c)"

definition toLowerCase :: "string \<Rightarrow> string" where
  "toLowerCase s = map toLowerCase_char s"

text \<open>Decimal text of a number, as \<open>util.format('%d', n)\<close> prints an integer.\<close>

function format_nat :: "nat \<Rightarrow> string" where
  "format_nat n =
     (if n < 10 then [char_of (48 + n)]
      else format_nat (n div 10) @ [char_of (48 + n mod 10)])"
  by pat_completeness auto
termination
  by (relation "measure id") auto

declare format_nat.simps [simp del]

definition format_int :: "int \<Rightarrow> string" where
  "format_int i = (if i < 0 then CHR ''-'' # format_nat (nat (- i)) else format_nat (nat i))"

subsection \<open>\<open>decodeURIComponent\<close>\<close>

text \<open>
  The ECMAScript function: every \<open>%XX\<close> is replaced by the byte \<open>XX\<close>; it throws URIError
  (here \<open>None\<close>) when a \<open>%\<close> is not followed by two hexadecimal digits, or when the escaped
  bytes above 127 are not the UTF-8 encoding of a code point (a continuation byte that is
  missing or not itself escaped, an overlong form, a surrogate, a value above 0x10FFFF).
\<close>

definition hexval :: "char \<Rightarrow> nat option" where
  "hexval c =
     (let n = (of_char c :: nat) in
      if 48 \<le> n \<and> n \<le> 57 then Some (n - 48)
      else if 65 \<le> n \<and> n \<le> 70 then Some (n - 55)
      else if 97 \<le> n \<and> n \<le> 102 then Some (n - 87)
      else None)"

datatype tok = Lit char | Esc nat

fun unescape :: "string \<Rightarrow> tok list option" where
  "unescape [] = Some []"
| "unescape (c # cs) =
     (if c = CHR ''%'' then
        (case cs of
           h1 # h2 # rest \<Rightarrow>
             (case hexval h1 of
                None \<Rightarrow> None
              | Some a \<Rightarrow>
                 (case hexval h2 of
                    None \<Rightarrow> None
                  | Some b \<Rightarrow> map_option (Cons (Esc (16 * a + b))) (unescape rest)))
         | _ \<Rightarrow> None)
      else map_option (Cons (Lit c)) (unescape cs))"

definition continuation :: "nat \<Rightarrow> bool" where
  "continuation b = (128 \<le> b \<and> b < 192)"

fun utf8 :: "tok list \<Rightarrow> string option" where
  "utf8 [] = Some []"
| "utf8 (Lit c # ts) = map_option (Cons c) (utf8 ts)"
| "utf8 (Esc b # ts) =
     (if b < 128 then map_option (Cons (char_of b)) (utf8 ts)
      else if 192 \<le> b \<and> b < 224 then
        (case ts of
           Esc b2 # r \<Rightarrow>
             (if continuation b2 \<and> 128 \<le> (b - 192) * 64 + (b2 - 128)
              then map_option (\<lambda>s. char_of b # char_of b2 # s) (utf8 r) else None)
         | _ \<Rightarrow> None)
      else if 224 \<le> b \<and> b < 240 then
        (case ts of
           Esc b2 # Esc b3 # r \<Rightarrow>
             (let cp = (b - 224) * 4096 + (b2 - 128) * 64 + (b3 - 128) in
              if continuation b2 \<and> continuation b3 \<and> 2048 \<le> cp
                 \<and> \<not> (55296 \<le> cp \<and> cp \<le> 57343)
              then map_option (\<lambda>s. char_of b # char_of b2 # char_of b3 # s) (utf8 r)
              else None)
         | _ \<Rightarrow> None)
      else if 240 \<le> b \<and> b < 248 then
        (case ts of
           Esc b2 # Esc b3 # Esc b4 # r \<Rightarrow>
             (let cp = (b - 240) * 262144 + (b2 - 128) * 4096 + (b3 - 128) * 64 + (b4 - 128) in
              if continuation b2 \<and> continuation b3 \<and> continuation b4
                 \<and> 65536 \<le> cp \<and> cp \<le> 1114111
              then map_option
                     (\<lambda>s. char_of b # char_of b2 # char_of b3 # char_of b4 # s) (utf8 r)
              else None)
         | _ \<Rightarrow> None)
      else None)"

definition decodeURIComponent :: "string \<Rightarrow> string option" where
  "decodeURIComponent s = (case unescape s of None \<Rightarrow> None | Some ts \<Rightarrow> utf8 ts)"

subsection \<open>\<open>path.posix.normalize\<close>, \<open>path.join\<close>, \<open>path.dirname\<close>\<close>

text \<open>
  Node's \<open>normalize\<close> walks the segments between slashes with a stack: an empty segment
  and \<open>.\<close> are dropped; \<open>..\<close> removes the last kept segment, unless there is none or it is
  itself \<open>..\<close>, in which case \<open>..\<close> is kept for a relative path and dropped for an
  absolute one; the result keeps the leading and the trailing slash of the input.
\<close>

fun split_slash :: "string \<Rightarrow> string list" where
  "split_slash [] = [[]]"
| "split_slash (c # cs) =
     (if c = CHR ''/'' then [] # split_slash cs
      else (case split_slash cs of [] \<Rightarrow> [[c]] | s # ss \<Rightarrow> (c # s) # ss))"

fun join_slash :: "string list \<Rightarrow> string" where
  "join_slash [] = []"
| "join_slash [s] = s"
| "join_slash (s # t # ss) = s @ CHR ''/'' # join_slash (t # ss)"

definition normalize_segment :: "bool \<Rightarrow> string list \<Rightarrow> string \<Rightarrow> string list" where
  "normalize_segment allowAboveRoot res seg =
     (if seg = [] \<or> seg = ''.'' then res
      else if seg = ''..'' then
        (if res \<noteq> [] \<and> last res \<noteq> ''..'' then butlast res
         else if allowAboveRoot then res @ [''..''] else res)
      else res @ [seg])"

definition normalizeString :: "string \<Rightarrow> bool \<Rightarrow> string" where
  "normalizeString p allowAboveRoot =
     join_slash (foldl (normalize_segment allowAboveRoot) [] (split_slash p))"

definition posix_normalize :: "string \<Rightarrow> string" where
  "posix_normalize p =
     (if p = [] then ''.''
      else
        let isAbsolute = (hd p = CHR ''/'');
            trailingSeparator = (last p = CHR ''/'');
            q = normalizeString p (\<not> isAbsolute)
        in if q = [] then (if isAbsolute then ''/'' else if trailingSeparator then ''./'' else ''.'')
           else (if isAbsolute then ''/'' else []) @ q @ (if trailingSeparator then ''/'' else []))"

definition path_join :: "string \<Rightarrow> string \<Rightarrow> string" where
  "path_join a b =
     (if a = [] \<and> b = [] then ''.''
      else posix_normalize (if a = [] then b else if b = [] then a else a @ CHR ''/'' # b))"

text \<open>
  \<open>dirname\<close>: trailing slashes are skipped, then the last segment and the slash before it
  are cut off; the first character is never cut.
\<close>

definition path_dirname :: "string \<Rightarrow> string" where
  "path_dirname p =
     (case p of
        [] \<Rightarrow> ''.''
      | c # cs \<Rightarrow>
          let hasRoot = (c = CHR ''/'');
              r = dropWhile (\<lambda>x. x \<noteq> CHR ''/'') (dropWhile (\<lambda>x. x = CHR ''/'') (rev cs))
          in if r = [] then (if hasRoot then ''/'' else ''.'')
             else if hasRoot \<and> length r = 1 then ''//''
             else c # rev (tl r))"

section \<open>Requests, responses and the store\<close>

text \<open>
  An incoming request as the handler reads it: the method, \<open>url.parse(req.url).pathname\<close>
  and \<open>.path\<close>, and \<open>req.headers\<close> (an object whose keys Node has lower-cased), kept as
  the list of its own properties in order.
\<close>

record request =
  req_method :: string
  req_pathname :: string
  req_path :: string
  req_headers :: "(string \<times> string) list"

text \<open>
  The \<open>res\<close> object: the status code (200 until assigned), the headers set with
  \<open>setHeader\<close> (Node keys them by lower-cased name), the body written so far, whether
  \<open>end()\<close> was called, and whether the status line and the headers have gone out.
\<close>

record response =
  statusCode :: nat
  res_headers :: "string \<rightharpoonup> string"
  res_body :: string
  res_ended :: bool
  res_headersSent :: bool

text \<open>
  The backend's response \<open>ores\<close>: status, headers, and the body as the chunks its stream
  will deliver.
\<close>

record upstream_response =
  ores_statusCode :: nat
  ores_headers :: "(string \<times> string) list"
  ores_chunks :: "string list"

record stats =
  st_size :: nat
  st_mtime :: int
  st_isDirectory :: bool

text \<open>The file system: a path holds a directory or a regular file (content, mtime in ms).\<close>

datatype fsnode = Dir | File string int

type_synonym filesystem = "string \<rightharpoonup> fsnode"

datatype read_error = ENOENT | EISDIR

text \<open>Library functions whose result the server only passes on.\<close>

record nodelib =
  mime_lookup :: "string \<Rightarrow> string"
  toUTCString :: "int \<Rightarrow> string"
  url_host :: "string \<Rightarrow> string"

definition NO_PROXY_HEADERS :: "string list" where
  "NO_PROXY_HEADERS = [''date'', ''server'', ''host'']"

definition CACHE_METHODS :: "string list" where
  "CACHE_METHODS = [''GET'', ''HEAD'']"

text \<open>\<open>/\.(png|jpg|jpeg|css|html|js|tar|tgz|tar\.gz)$/.test(s)\<close>\<close>

definition REGEX :: "string \<Rightarrow> bool" where
  "REGEX s =
     list_ex (\<lambda>e. endsWith s (CHR ''.'' # e))
       [''png'', ''jpg'', ''jpeg'', ''css'', ''html'', ''js'', ''tar'', ''tgz'', ''tar.gz'']"

text \<open>The constructor's argument; an optional field is \<open>None\<close> when it is not given.\<close>

record opts =
  opts_host :: string
  opts_port :: nat
  opts_backendUrl :: string
  opts_cacheDir :: string
  opts_regex :: "(string \<Rightarrow> bool) option"
  opts_noProxyHeaders :: "string list option"
  opts_cacheMethods :: "string list option"

record config =
  backendUrl :: string
  cacheDir :: string
  regex :: "string \<Rightarrow> bool"
  noProxyHeaders :: "string list"
  cacheMethods :: "string list"
  backendHttps :: bool

definition FsCachingServer :: "opts \<Rightarrow> config" where
  "FsCachingServer opts =
     \<lparr> backendUrl = opts_backendUrl opts,
       cacheDir = opts_cacheDir opts,
       regex = (case opts_regex opts of None \<Rightarrow> REGEX | Some r \<Rightarrow> r),
       noProxyHeaders =
         (case opts_noProxyHeaders opts of None \<Rightarrow> NO_PROXY_HEADERS | Some hs \<Rightarrow> hs),
       cacheMethods = (case opts_cacheMethods opts of None \<Rightarrow> CACHE_METHODS | Some ms \<Rightarrow> ms),
       backendHttps = startsWith (opts_backendUrl opts) ''https:'' \<rparr>"

subsection \<open>Exceptions\<close>

text \<open>
  No callback of the server catches what the calls below throw, so an exception ends the
  callback it is thrown in, and nothing in the module handles it: a result \<open>Inl e\<close> is the
  exception \<open>e\<close> leaving the callback. The exceptions are: the TypeError of reading
  \<open>forEach\<close> of \<open>undefined\<close> in \<open>finish\<close>; the RangeError of Node's \<open>writeHead\<close> for a
  status code below 100 or above 999; the error of \<open>setHeader\<close> once the headers are sent;
  and the error of \<open>fs.stat\<close> for a path that holds a NUL byte.
\<close>

datatype error = TypeError | RangeError | HeadersSentError | InvalidArgError

definition bind_err :: "error + 'a \<Rightarrow> ('a \<Rightarrow> error + 'b) \<Rightarrow> error + 'b" where
  "bind_err m f = (case m of Inl e \<Rightarrow> Inl e | Inr x \<Rightarrow> f x)"

text \<open>The exception a callback was left by, if any.\<close>

fun thrown :: "error + 'a \<Rightarrow> error option" where
  "thrown (Inl e) = Some e"
| "thrown (Inr x) = None"

text \<open>\<open>xs.forEach(f)\<close> on a state: the first exception ends the loop.\<close>

fun fold_err :: "('a \<Rightarrow> 'b \<Rightarrow> error + 'b) \<Rightarrow> 'a list \<Rightarrow> 'b \<Rightarrow> error + 'b" where
  "fold_err f [] s = Inr s"
| "fold_err f (x # xs) s = bind_err (f x s) (fold_err f xs)"

subsection \<open>Operations on \<open>res\<close>\<close>

definition new_response :: response where
  "new_response =
     \<lparr> statusCode = 200, res_headers = Map.empty, res_body = [], res_ended = False,
       res_headersSent = False \<rparr>"

definition setHeader :: "string \<Rightarrow> string \<Rightarrow> response \<Rightarrow> error + response" where
  "setHeader name v r =
     (if res_headersSent r then Inl HeadersSentError
      else Inr (r\<lparr> res_headers := (res_headers r)(toLowerCase name \<mapsto> v) \<rparr>))"

text \<open>
  The first \<open>write\<close> or \<open>end\<close> sends the status line and the headers
  (\<open>_implicitHeader\<close>, which calls \<open>writeHead(this.statusCode)\<close>).
\<close>

definition implicitHeader :: "response \<Rightarrow> error + response" where
  "implicitHeader r =
     (if res_headersSent r then Inr r
      else if statusCode r < 100 \<or> 999 < statusCode r then Inl RangeError
      else Inr (r\<lparr> res_headersSent := True \<rparr>))"

definition res_write :: "string \<Rightarrow> response \<Rightarrow> error + response" where
  "res_write d r =
     (if res_ended r then Inr r
      else bind_err (implicitHeader r) (\<lambda>r1. Inr (r1\<lparr> res_body := res_body r1 @ d \<rparr>)))"

definition res_end :: "response \<Rightarrow> error + response" where
  "res_end r =
     (if res_ended r then Inr r
      else bind_err (implicitHeader r) (\<lambda>r1. Inr (r1\<lparr> res_ended := True \<rparr>)))"

text \<open>\<open>res.statusCode = code; res.end()\<close>\<close>

definition end_with :: "nat \<Rightarrow> response \<Rightarrow> error + response" where
  "end_with code r = res_end (r\<lparr> statusCode := code \<rparr>)"

subsection \<open>Header copying\<close>

text \<open>
  Lines 238-244 and 303-307: every header of the request that is not in the constant
  \<open>NO_PROXY_HEADERS\<close> is copied, then \<open>host\<close> is set to the host of the backend URI.
\<close>

definition proxy_header :: "string \<times> string \<Rightarrow> (string \<rightharpoonup> string) \<Rightarrow> (string \<rightharpoonup> string)" where
  "proxy_header hv acc =
     (if fst hv \<notin> set NO_PROXY_HEADERS then acc(fst hv \<mapsto> snd hv) else acc)"

definition proxy_headers :: "(string \<times> string) list \<Rightarrow> string \<Rightarrow> (string \<rightharpoonup> string)" where
  "proxy_headers hs host = (fold proxy_header hs Map.empty)(''host'' \<mapsto> host)"

text \<open>Lines 248-251, 315-319 and 416-420: the same filter on the backend's headers.\<close>

definition copy_header :: "string \<times> string \<Rightarrow> response \<Rightarrow> error + response" where
  "copy_header hv r =
     (if fst hv \<notin> set NO_PROXY_HEADERS then setHeader (fst hv) (snd hv) r else Inr r)"

definition copy_response_headers :: "upstream_response \<Rightarrow> response \<Rightarrow> error + response" where
  "copy_response_headers ores res = fold_err copy_header (ores_headers ores) res"

subsection \<open>\<open>streamFile\<close>\<close>

definition etag_of :: "stats \<Rightarrow> string" where
  "etag_of st = ''\"'' @ format_nat (st_size st) @ ''-'' @ format_int (st_mtime st) @ ''\"''"

text \<open>
  The read stream piped into \<open>res\<close> is taken as its outcome \<open>rd\<close>: the file's bytes, or
  the error of the stream.
\<close>

definition streamFile ::
  "nodelib \<Rightarrow> string \<Rightarrow> stats \<Rightarrow> request \<Rightarrow> read_error + string \<Rightarrow> response
     \<Rightarrow> error + response" where
  "streamFile lib file st req rd res =
     (let etag = etag_of st
      in bind_err (setHeader ''Last-Modified'' (toUTCString lib (st_mtime st)) res) (\<lambda>res1.
         bind_err (setHeader ''Content-Type'' (mime_lookup lib file) res1) (\<lambda>res2.
         bind_err (setHeader ''ETag'' etag res2) (\<lambda>res3.
         if map_of (req_headers req) ''if-none-match'' = Some etag then end_with 304 res3
         else
           bind_err (setHeader ''Content-Length'' (format_nat (st_size st)) res3) (\<lambda>res4.
           if req_method req = ''HEAD'' then res_end res4
           else (case rd of
                   Inr content \<Rightarrow> bind_err (res_write content res4) res_end
                 | Inl e \<Rightarrow> end_with (if e = ENOENT then 404 else 500) res4))))))"

section \<open>The server\<close>

text \<open>
  Node runs one callback at a time, to completion. Each callback of \<open>_onRequest\<close> is a
  function on the state of the server below, and an event names the callback that runs
  next. The state holds \<open>self.inProgress\<close> (an object, kept as the list of its own
  properties), \<open>self.idle\<close>, the number of \<open>idle\<close> events emitted, the file system, the
  variables each request's callbacks close over, the \<open>res\<close> objects by request, and the
  requests sent to the backend so far.
\<close>

record waiter =
  w_id :: nat
  w_req :: request

text \<open>
  What a request waits for. A call of \<open>fs.stat\<close> is carried out at some moment between
  the call and its callback: \<open>AwaitStat\<close> is the time before that moment, \<open>StatResult\<close>
  the time after it, with the result the callback will be given. The same for the
  \<open>fs.stat\<close> of \<open>finish\<close>.
\<close>

datatype phase =
    AwaitStat
  | StatResult "stats option"
  | Proxying
  | Queued
  | AwaitResponse
  | AwaitMkdirp
  | Streaming
  | AwaitRename
  | AwaitFinishStat
  | FinishStatResult "stats option"
  | Closed

datatype pipe = NoPipe | Piping "string list" | PipeDone

text \<open>
  The listener for \<open>error\<close> on the request to the backend: none (no such request, or the
  listener is gone), \<open>oreq.once\<close> of a proxied request, \<open>oreq.on\<close> of a cache fill.
\<close>

datatype listener = NoListener | Once | On

record closure =
  c_req :: request
  c_file :: string
  c_phase :: phase
  c_ores :: "upstream_response option"
  c_ws :: "string list"
  c_pipe :: pipe
  c_onerror :: listener

datatype fetch_kind = ProxyOnly | CacheFill string

record upstream_request =
  u_id :: nat
  u_kind :: fetch_kind
  u_https :: bool
  u_method :: string
  u_uri :: string
  u_headers :: "string \<rightharpoonup> string"

record server =
  inProgress :: "(string \<times> waiter list) list"
  idle :: bool
  idle_events :: nat
  files :: filesystem
  closures :: "nat \<rightharpoonup> closure"
  responses :: "nat \<rightharpoonup> response"
  upstream :: "upstream_request list"

text \<open>The state after \<open>start()\<close>, over the file system it finds.\<close>

definition start :: "filesystem \<Rightarrow> server" where
  "start fs =
     \<lparr> inProgress = [], idle = True, idle_events = 0, files = fs,
       closures = Map.empty, responses = Map.empty, upstream = [] \<rparr>"

subsection \<open>File system calls\<close>

definition fs_stat :: "filesystem \<Rightarrow> string \<Rightarrow> stats option" where
  "fs_stat fs p =
     (case fs p of
        None \<Rightarrow> None
      | Some Dir \<Rightarrow> Some \<lparr> st_size = 0, st_mtime = 0, st_isDirectory = True \<rparr>
      | Some (File content t) \<Rightarrow>
          Some \<lparr> st_size = length content, st_mtime = t, st_isDirectory = False \<rparr>)"

definition fs_read :: "filesystem \<Rightarrow> string \<Rightarrow> read_error + string" where
  "fs_read fs p =
     (case fs p of
        None \<Rightarrow> Inl ENOENT
      | Some Dir \<Rightarrow> Inl EISDIR
      | Some (File content t) \<Rightarrow> Inr content)"

text \<open>
  \<open>mkdirp\<close> walks the ancestors of the directory from the top: a missing one is created,
  a directory is left alone, and at a regular file it gives up.
\<close>

fun dir_prefixes :: "string \<Rightarrow> string \<Rightarrow> string list" where
  "dir_prefixes acc [] = (if acc = [] then [] else [acc])"
| "dir_prefixes acc (c # cs) =
     (if c = CHR ''/'' \<and> acc \<noteq> [] \<and> last acc \<noteq> CHR ''/'' then [acc] else [])
       @ dir_prefixes (acc @ [c]) cs"

fun mkdirs :: "string list \<Rightarrow> filesystem \<Rightarrow> filesystem" where
  "mkdirs [] fs = fs"
| "mkdirs (p # ps) fs =
     (case fs p of
        None \<Rightarrow> mkdirs ps (fs(p \<mapsto> Dir))
      | Some Dir \<Rightarrow> mkdirs ps fs
      | Some (File content t) \<Rightarrow> fs)"

definition mkdirp :: "string \<Rightarrow> filesystem \<Rightarrow> filesystem" where
  "mkdirp d fs = mkdirs (dir_prefixes [] d) fs"

text \<open>A path can be created or replaced when its parent is a directory.\<close>

definition parent_ok :: "filesystem \<Rightarrow> string \<Rightarrow> bool" where
  "parent_ok fs p =
     (let d = path_dirname p in d = ''/'' \<or> d = ''//'' \<or> d = ''.'' \<or> fs d = Some Dir)"

text \<open>
  \<open>fs.createWriteStream(tmp)\<close> opens with flag \<open>w\<close>: the file is created or truncated.
  When the parent is not a directory, or a directory is at the path, nothing is opened
  (the stream then only ever emits \<open>error\<close>).
\<close>

definition ws_open :: "string \<Rightarrow> int \<Rightarrow> filesystem \<Rightarrow> filesystem" where
  "ws_open tmp t fs =
     (if parent_ok fs tmp \<and> fs tmp \<noteq> Some Dir then fs(tmp \<mapsto> File [] t) else fs)"

definition ws_write :: "string \<Rightarrow> string \<Rightarrow> int \<Rightarrow> filesystem \<Rightarrow> filesystem" where
  "ws_write tmp chunk t fs =
     (case fs tmp of Some (File old t0) \<Rightarrow> fs(tmp \<mapsto> File (old @ chunk) t) | _ \<Rightarrow> fs)"

text \<open>
  \<open>fs.rename\<close>: \<open>None\<close> is the callback's \<open>err\<close>. The source must exist and the parent of
  the target be a directory; a file replaces a file, never a directory; a directory
  replaces a directory, never a file. Whether a directory at the target is empty is not
  told by the paths: that failure is left to the caller.
\<close>

definition fs_rename :: "string \<Rightarrow> string \<Rightarrow> filesystem \<Rightarrow> filesystem option" where
  "fs_rename old new fs =
     (case fs old of
        None \<Rightarrow> None
      | Some Dir \<Rightarrow>
          (case fs new of
             Some (File content t) \<Rightarrow> None
           | _ \<Rightarrow> if parent_ok fs new then Some ((fs(old := None))(new \<mapsto> Dir)) else None)
      | Some (File content t) \<Rightarrow>
          (if fs new = Some Dir \<or> \<not> parent_ok fs new then None
           else Some ((fs(old := None))(new \<mapsto> File content t))))"

subsection \<open>\<open>finish\<close> and \<open>checkIdle\<close>\<close>

definition hap :: "('k \<times> 'v) list \<Rightarrow> 'k \<Rightarrow> bool" where
  "hap obj p = (map_of obj p \<noteq> None)"

definition checkIdle :: "server \<Rightarrow> server" where
  "checkIdle s =
     (if inProgress s = [] then s\<lparr> idle := True, idle_events := idle_events s + 1 \<rparr> else s)"

definition update_res :: "nat \<Rightarrow> (response \<Rightarrow> error + response) \<Rightarrow> server \<Rightarrow> error + server" where
  "update_res rid f s =
     (case responses s rid of
        None \<Rightarrow> Inr s
      | Some r \<Rightarrow> bind_err (f r) (\<lambda>r'. Inr (s\<lparr> responses := (responses s)(rid \<mapsto> r') \<rparr>)))"

text \<open>\<open>self.inProgress[file].forEach(function (o) { ... o.res ... })\<close>\<close>

definition forEach_waiter ::
  "(waiter \<Rightarrow> response \<Rightarrow> error + response) \<Rightarrow> waiter list \<Rightarrow> server \<Rightarrow> error + server" where
  "forEach_waiter f ws s = fold_err (\<lambda>w. update_res (w_id w) (f w)) ws s"

text \<open>
  \<open>finish({statusCode: code})\<close>, lines 392-401. Reading \<open>forEach\<close> of a missing property
  throws; so does \<open>o.res.end()\<close> for a status code that cannot be sent, before the record
  is deleted.
\<close>

definition finish_statusCode :: "string \<Rightarrow> nat \<Rightarrow> server \<Rightarrow> error + server" where
  "finish_statusCode file code s =
     (case map_of (inProgress s) file of
        None \<Rightarrow> Inl TypeError
      | Some ws \<Rightarrow>
          bind_err (forEach_waiter (\<lambda>w. end_with code) ws s) (\<lambda>s1.
          Inr (checkIdle (s1\<lparr> inProgress := AList.delete file (inProgress s1) \<rparr>))))"

text \<open>
  \<open>finish({ores: ores})\<close> calls \<open>fs.stat\<close>; this is its callback, lines 404-434, with the
  \<open>stats\<close> it is given and the outcome \<open>rd\<close> the read streams of \<open>streamFile\<close> will have.
\<close>

definition finish_ores ::
  "nodelib \<Rightarrow> string \<Rightarrow> upstream_response \<Rightarrow> stats option \<Rightarrow> read_error + string
     \<Rightarrow> server \<Rightarrow> error + server" where
  "finish_ores lib file ores stats rd s =
     (case map_of (inProgress s) file of
        None \<Rightarrow> Inl TypeError
      | Some ws \<Rightarrow>
          bind_err
            (case stats of
               Some st \<Rightarrow>
                 if st_isDirectory st then forEach_waiter (\<lambda>w. end_with 400) ws s
                 else forEach_waiter
                        (\<lambda>w res.
                           bind_err
                             (copy_response_headers ores
                                (res\<lparr> statusCode := ores_statusCode ores \<rparr>))
                             (streamFile lib file st (w_req w) rd)) ws s
             | None \<Rightarrow> forEach_waiter (\<lambda>w. end_with 500) ws s) (\<lambda>s1.
          Inr (checkIdle (s1\<lparr> inProgress := AList.delete file (inProgress s1) \<rparr>))))"

subsection \<open>The callbacks of \<open>_onRequest\<close>\<close>

definition set_closure :: "nat \<Rightarrow> closure \<Rightarrow> server \<Rightarrow> server" where
  "set_closure rid c s = s\<lparr> closures := (closures s)(rid \<mapsto> c) \<rparr>"

definition send_upstream :: "config \<Rightarrow> nodelib \<Rightarrow> nat \<Rightarrow> fetch_kind \<Rightarrow> request \<Rightarrow> server \<Rightarrow> server" where
  "send_upstream cfg lib rid kind req s =
     (let uristring = backendUrl cfg @ req_path req
      in s\<lparr> upstream := upstream s @
               [\<lparr> u_id = rid, u_kind = kind, u_https = backendHttps cfg,
                  u_method = req_method req, u_uri = uristring,
                  u_headers = proxy_headers (req_headers req) (url_host lib uristring) \<rparr>] \<rparr>)"

text \<open>
  Lines 197-268, for a request whose \<open>uuid\<close> is \<open>rid\<close> and whose \<open>res\<close> is new: the path is
  decoded and normalized (400 when decoding throws); a request that is not to be cached
  is sent to the backend; otherwise \<open>fs.stat\<close> is called on the file under the cache
  directory. That call is outside the \<open>try\<close>, and it throws for a path with a NUL byte.
\<close>

definition onRequest :: "config \<Rightarrow> nodelib \<Rightarrow> nat \<Rightarrow> request \<Rightarrow> server \<Rightarrow> error + server" where
  "onRequest cfg lib rid req s =
     (let c = \<lparr> c_req = req, c_file = [], c_phase = Closed, c_ores = None, c_ws = [],
                c_pipe = NoPipe, c_onerror = NoListener \<rparr>;
          s0 = s\<lparr> responses := (responses s)(rid \<mapsto> new_response) \<rparr>
      in case decodeURIComponent (req_pathname req) of
           None \<Rightarrow> bind_err (update_res rid (end_with 400) s0) (\<lambda>s1. Inr (set_closure rid c s1))
         | Some d \<Rightarrow>
             let file = posix_normalize d
             in if req_method req \<notin> set (cacheMethods cfg) \<or> \<not> regex cfg file
                then Inr (set_closure rid
                            (c\<lparr> c_file := file, c_phase := Proxying, c_onerror := Once \<rparr>)
                            (send_upstream cfg lib rid ProxyOnly req s0))
                else
                  let file' = path_join (cacheDir cfg) file
                  in if CHR 0x00 \<in> set file' then Inl InvalidArgError
                     else Inr (set_closure rid (c\<lparr> c_file := file', c_phase := AwaitStat \<rparr>) s0))"

text \<open>The callback of \<open>fs.stat\<close>, lines 268-381, given \<open>stats\<close>.\<close>

definition onStat ::
  "config \<Rightarrow> nodelib \<Rightarrow> nat \<Rightarrow> closure \<Rightarrow> stats option \<Rightarrow> server \<Rightarrow> error + server" where
  "onStat cfg lib rid c stats s =
     (let file = c_file c; req = c_req c
      in case stats of
           Some st \<Rightarrow>
             if st_isDirectory st
             then bind_err (update_res rid (end_with 400) s) (\<lambda>s1.
                  Inr (set_closure rid (c\<lparr> c_phase := Closed \<rparr>) s1))
             else bind_err
                    (update_res rid (streamFile lib file st req (fs_read (files s) file)) s)
                    (\<lambda>s1. Inr (set_closure rid (c\<lparr> c_phase := Closed \<rparr>) s1))
         | None \<Rightarrow>
             if hap (inProgress s) file
             then (case map_of (inProgress s) file of
                     None \<Rightarrow> Inr s
                   | Some ws \<Rightarrow>
                       Inr (set_closure rid (c\<lparr> c_phase := Queued \<rparr>)
                         (s\<lparr> inProgress :=
                               AList.update file (ws @ [\<lparr> w_id = rid, w_req = req \<rparr>])
                                 (inProgress s) \<rparr>)))
             else Inr (set_closure rid (c\<lparr> c_phase := AwaitResponse, c_onerror := On \<rparr>)
                    (send_upstream cfg lib rid (CacheFill file) req
                       (s\<lparr> inProgress := AList.update file [] (inProgress s), idle := False \<rparr>))))"

text \<open>The callback of \<open>self._request\<close> for a request that is only proxied, lines 246-253.\<close>

definition onProxyResponse :: "nat \<Rightarrow> closure \<Rightarrow> upstream_response \<Rightarrow> server \<Rightarrow> error + server" where
  "onProxyResponse rid c ores s =
     bind_err
       (update_res rid
          (\<lambda>res. copy_response_headers ores (res\<lparr> statusCode := ores_statusCode ores \<rparr>)) s)
       (\<lambda>s1. Inr (set_closure rid
                     (c\<lparr> c_phase := Closed, c_ores := Some ores,
                         c_pipe := Piping (ores_chunks ores) \<rparr>) s1))"

text \<open>
  The callback of \<open>self._request\<close> for a cache fill, lines 312-370, up to the call of
  \<open>mkdirp\<close>. For a status outside [200,300): \<open>finish\<close>, then \<open>res.end()\<close>.
\<close>

definition onResponse ::
  "nat \<Rightarrow> closure \<Rightarrow> response \<Rightarrow> upstream_response \<Rightarrow> server \<Rightarrow> error + server" where
  "onResponse rid c res ores s =
     bind_err (copy_response_headers ores (res\<lparr> statusCode := ores_statusCode ores \<rparr>)) (\<lambda>res1.
       let s1 = s\<lparr> responses := (responses s)(rid \<mapsto> res1) \<rparr>
       in if statusCode res1 < 200 \<or> 300 \<le> statusCode res1
          then bind_err (finish_statusCode (c_file c) (statusCode res1) s1) (\<lambda>s2.
               bind_err (update_res rid res_end s2) (\<lambda>s3.
               Inr (set_closure rid (c\<lparr> c_phase := Closed \<rparr>) s3)))
          else Inr (set_closure rid (c\<lparr> c_phase := AwaitMkdirp, c_ores := Some ores \<rparr>) s1))"

text \<open>
  The callback of \<open>mkdirp\<close>, lines 332-369: the write stream is opened on
  \<open>file + '.in-progress'\<close> at time \<open>t\<close>, and the two clones of \<open>ores\<close> are piped into it and
  into \<open>res\<close>.
\<close>

definition tmp_of :: "string \<Rightarrow> string" where
  "tmp_of file = file @ ''.in-progress''"

definition onMkdirp :: "nat \<Rightarrow> closure \<Rightarrow> upstream_response \<Rightarrow> int \<Rightarrow> server \<Rightarrow> server" where
  "onMkdirp rid c ores t s =
     (let tmp = tmp_of (c_file c)
      in set_closure rid
           (c\<lparr> c_phase := Streaming, c_ws := ores_chunks ores, c_pipe := Piping (ores_chunks ores) \<rparr>)
           (s\<lparr> files := ws_open tmp t (mkdirp (path_dirname (c_file c)) (files s)) \<rparr>))"

text \<open>The write stream takes the next chunk of its clone.\<close>

definition onWsWrite :: "nat \<Rightarrow> closure \<Rightarrow> string \<Rightarrow> string list \<Rightarrow> int \<Rightarrow> server \<Rightarrow> server" where
  "onWsWrite rid c chunk rest t s =
     set_closure rid (c\<lparr> c_ws := rest \<rparr>)
       (s\<lparr> files := ws_write (tmp_of (c_file c)) chunk t (files s) \<rparr>)"

text \<open>\<open>ws.once('finish', ...)\<close>, line 339: \<open>fs.rename\<close> is called.\<close>

definition onWsFinish :: "nat \<Rightarrow> closure \<Rightarrow> server \<Rightarrow> server" where
  "onWsFinish rid c s = set_closure rid (c\<lparr> c_phase := AwaitRename \<rparr>) s"

text \<open>\<open>ws.once('error', ...)\<close>, lines 357-363.\<close>

definition onWsError :: "nat \<Rightarrow> closure \<Rightarrow> server \<Rightarrow> error + server" where
  "onWsError rid c s =
     bind_err (finish_statusCode (c_file c) 500 s) (\<lambda>s1.
     Inr (set_closure rid (c\<lparr> c_phase := Closed \<rparr>) s1))"

text \<open>
  The callback of \<open>fs.rename\<close>, lines 340-354; \<open>fail\<close> is a failure of the call that the
  model of the file system does not decide.
\<close>

definition onRename :: "nat \<Rightarrow> closure \<Rightarrow> bool \<Rightarrow> server \<Rightarrow> error + server" where
  "onRename rid c fail s =
     (case (if fail then None else fs_rename (tmp_of (c_file c)) (c_file c) (files s)) of
        None \<Rightarrow>
          bind_err (finish_statusCode (c_file c) 500 s) (\<lambda>s1.
          Inr (set_closure rid (c\<lparr> c_phase := Closed \<rparr>) s1))
      | Some fs \<Rightarrow> Inr (set_closure rid (c\<lparr> c_phase := AwaitFinishStat \<rparr>) (s\<lparr> files := fs \<rparr>)))"

text \<open>The callback of \<open>fs.stat\<close> in \<open>finish\<close>, given \<open>stats\<close>.\<close>

definition onFinishStat ::
  "nodelib \<Rightarrow> nat \<Rightarrow> closure \<Rightarrow> upstream_response \<Rightarrow> stats option \<Rightarrow> server
     \<Rightarrow> error + server" where
  "onFinishStat lib rid c ores stats s =
     bind_err (finish_ores lib (c_file c) ores stats (fs_read (files s) (c_file c)) s) (\<lambda>s1.
     Inr (set_closure rid (c\<lparr> c_phase := Closed \<rparr>) s1))"

text \<open>
  \<open>oreq.on('error', ...)\<close> of a cache fill, lines 372-379. The listener stays for the
  life of the request to the backend and looks at nothing before it calls \<open>finish\<close>: it
  runs the same whether the response has come or not. Before the response the request is
  then over; after it, what was started goes on.
\<close>

definition onOreqError :: "nat \<Rightarrow> closure \<Rightarrow> server \<Rightarrow> error + server" where
  "onOreqError rid c s =
     bind_err (update_res rid (end_with 500) s) (\<lambda>s1.
     bind_err (finish_statusCode (c_file c) 500 s1) (\<lambda>s2.
     Inr (set_closure rid
            (c\<lparr> c_phase := (if c_phase c = AwaitResponse then Closed else c_phase c) \<rparr>) s2)))"

text \<open>\<open>oreq.once('error', ...)\<close> of a proxied request, lines 255-258; it runs once.\<close>

definition onProxyError :: "nat \<Rightarrow> closure \<Rightarrow> server \<Rightarrow> error + server" where
  "onProxyError rid c s =
     bind_err (update_res rid (end_with 500) s) (\<lambda>s1.
     Inr (set_closure rid
            (c\<lparr> c_phase := (if c_phase c = Proxying then Closed else c_phase c),
                c_onerror := NoListener \<rparr>) s1))"

text \<open>A clone of \<open>ores\<close> piped into \<open>res\<close> hands over its next chunk, or ends \<open>res\<close>.\<close>

definition onPipe :: "nat \<Rightarrow> closure \<Rightarrow> server \<Rightarrow> error + server" where
  "onPipe rid c s =
     (case c_pipe c of
        Piping (chunk # rest) \<Rightarrow>
          bind_err (update_res rid (res_write chunk) s) (\<lambda>s1.
          Inr (set_closure rid (c\<lparr> c_pipe := Piping rest \<rparr>) s1))
      | Piping [] \<Rightarrow>
          bind_err (update_res rid res_end s) (\<lambda>s1.
          Inr (set_closure rid (c\<lparr> c_pipe := PipeDone \<rparr>) s1))
      | _ \<Rightarrow> Inr s)"

subsection \<open>Events\<close>

text \<open>
  An event runs one callback. An event that cannot occur in the state leaves it as it is:
  a request with a \<open>uuid\<close> already in use, a callback of a call that is not pending, a
  write on a stream whose file is not open, an \<open>error\<close> of a request to the backend that
  was not made. \<open>StatRead\<close> and \<open>FinishStatRead\<close> are the moments at which a pending
  \<open>fs.stat\<close> looks at the file system; when the callback comes first, the call is taken
  to look at that moment. An \<open>error\<close> of the request to the backend can come at any
  time after the request was made.
\<close>

datatype event =
    Request nat request
  | StatRead nat
  | StatDone nat
  | Response nat upstream_response
  | OreqError nat
  | MkdirpDone nat int
  | WsWrite nat int
  | WsFinish nat
  | WsError nat
  | RenameDone nat bool
  | FinishStatRead nat
  | FinishStatDone nat
  | Pipe nat

definition is_file :: "filesystem \<Rightarrow> string \<Rightarrow> bool" where
  "is_file fs p = (case fs p of Some (File content t) \<Rightarrow> True | _ \<Rightarrow> False)"

fun dispatch :: "config \<Rightarrow> nodelib \<Rightarrow> event \<Rightarrow> nat \<Rightarrow> closure \<Rightarrow> response \<Rightarrow> server \<Rightarrow> error + server" where
  "dispatch cfg lib (Request rid' req) rid c res s = Inr s"
| "dispatch cfg lib (StatRead rid') rid c res s =
     (if c_phase c = AwaitStat
      then Inr (set_closure rid (c\<lparr> c_phase := StatResult (fs_stat (files s) (c_file c)) \<rparr>) s)
      else Inr s)"
| "dispatch cfg lib (StatDone rid') rid c res s =
     (case c_phase c of
        AwaitStat \<Rightarrow> onStat cfg lib rid c (fs_stat (files s) (c_file c)) s
      | StatResult stats \<Rightarrow> onStat cfg lib rid c stats s
      | _ \<Rightarrow> Inr s)"
| "dispatch cfg lib (Response rid' ores) rid c res s =
     (if c_phase c = Proxying then onProxyResponse rid c ores s
      else if c_phase c = AwaitResponse then onResponse rid c res ores s
      else Inr s)"
| "dispatch cfg lib (OreqError rid') rid c res s =
     (case c_onerror c of
        Once \<Rightarrow> onProxyError rid c s
      | On \<Rightarrow> onOreqError rid c s
      | NoListener \<Rightarrow> Inr s)"
| "dispatch cfg lib (MkdirpDone rid' t) rid c res s =
     (case c_ores c of
        Some ores \<Rightarrow> if c_phase c = AwaitMkdirp then Inr (onMkdirp rid c ores t s) else Inr s
      | None \<Rightarrow> Inr s)"
| "dispatch cfg lib (WsWrite rid' t) rid c res s =
     (case c_ws c of
        chunk # rest \<Rightarrow>
          if c_phase c = Streaming \<and> is_file (files s) (tmp_of (c_file c))
          then Inr (onWsWrite rid c chunk rest t s) else Inr s
      | [] \<Rightarrow> Inr s)"
| "dispatch cfg lib (WsFinish rid') rid c res s =
     (if c_phase c = Streaming \<and> c_ws c = [] \<and> is_file (files s) (tmp_of (c_file c))
      then Inr (onWsFinish rid c s) else Inr s)"
| "dispatch cfg lib (WsError rid') rid c res s =
     (if c_phase c = Streaming then onWsError rid c s else Inr s)"
| "dispatch cfg lib (RenameDone rid' fail) rid c res s =
     (if c_phase c = AwaitRename then onRename rid c fail s else Inr s)"
| "dispatch cfg lib (FinishStatRead rid') rid c res s =
     (if c_phase c = AwaitFinishStat
      then Inr (set_closure rid
                  (c\<lparr> c_phase := FinishStatResult (fs_stat (files s) (c_file c)) \<rparr>) s)
      else Inr s)"
| "dispatch cfg lib (FinishStatDone rid') rid c res s =
     (case c_ores c of
        Some ores \<Rightarrow>
          (case c_phase c of
             AwaitFinishStat \<Rightarrow> onFinishStat lib rid c ores (fs_stat (files s) (c_file c)) s
           | FinishStatResult stats \<Rightarrow> onFinishStat lib rid c ores stats s
           | _ \<Rightarrow> Inr s)
      | None \<Rightarrow> Inr s)"
| "dispatch cfg lib (Pipe rid') rid c res s = onPipe rid c s"

fun event_id :: "event \<Rightarrow> nat" where
  "event_id (Request rid req) = rid"
| "event_id (StatRead rid) = rid"
| "event_id (StatDone rid) = rid"
| "event_id (Response rid ores) = rid"
| "event_id (OreqError rid) = rid"
| "event_id (MkdirpDone rid t) = rid"
| "event_id (WsWrite rid t) = rid"
| "event_id (WsFinish rid) = rid"
| "event_id (WsError rid) = rid"
| "event_id (RenameDone rid fail) = rid"
| "event_id (FinishStatRead rid) = rid"
| "event_id (FinishStatDone rid) = rid"
| "event_id (Pipe rid) = rid"

definition step :: "config \<Rightarrow> nodelib \<Rightarrow> event \<Rightarrow> server \<Rightarrow> error + server" where
  "step cfg lib e s =
     (case (closures s (event_id e), responses s (event_id e)) of
        (Some c, Some res) \<Rightarrow> dispatch cfg lib e (event_id e) c res s
      | _ \<Rightarrow> (case e of Request rid req \<Rightarrow> onRequest cfg lib rid req s | _ \<Rightarrow> Inr s))"

fun run :: "config \<Rightarrow> nodelib \<Rightarrow> event list \<Rightarrow> server \<Rightarrow> error + server" where
  "run cfg lib [] s = Inr s"
| "run cfg lib (e # es) s =
     (case step cfg lib e s of Inl err \<Rightarrow> Inl err | Inr s' \<Rightarrow> run cfg lib es s')"

section \<open>Invariants of the reachable states\<close>

definition kept :: "string list \<Rightarrow> bool" where
  "kept res = (\<forall>s \<in> set res. s \<noteq> [] \<and> s \<noteq> ''.'' \<and> s \<noteq> ''..'' \<and> CHR ''/'' \<notin> set s)"

text \<open>The phases in which nothing has touched \<open>res\<close> yet.\<close>

fun untouched :: "phase \<Rightarrow> bool" where
  "untouched AwaitStat = True"
| "untouched (StatResult stats) = True"
| "untouched Proxying = True"
| "untouched AwaitResponse = True"
| "untouched ph = False"

text \<open>The phases of a cache fill after a response with a status in [200,300).\<close>

fun filling :: "phase \<Rightarrow> bool" where
  "filling AwaitMkdirp = True"
| "filling Streaming = True"
| "filling AwaitRename = True"
| "filling AwaitFinishStat = True"
| "filling (FinishStatResult stats) = True"
| "filling ph = False"

fun stat_pending :: "phase \<Rightarrow> bool" where
  "stat_pending AwaitStat = True"
| "stat_pending (StatResult stats) = True"
| "stat_pending ph = False"

text \<open>
  Every waiter in the registry belongs to a request that is queued on that key and whose
  \<open>res\<close> is still new; no request is queued twice.
\<close>

definition inv_queue :: "server \<Rightarrow> bool" where
  "inv_queue s =
     (\<forall>k ws. map_of (inProgress s) k = Some ws \<longrightarrow>
        distinct (map w_id ws)
        \<and> (\<forall>w \<in> set ws. \<exists>c. closures s (w_id w) = Some c \<and> c_phase c = Queued
               \<and> c_file c = k \<and> c_req c = w_req w
               \<and> responses s (w_id w) = Some new_response))"

definition res_ok :: "closure \<Rightarrow> response \<Rightarrow> bool" where
  "res_ok c r =
     ((untouched (c_phase c) \<longrightarrow> r = new_response \<and> c_pipe c = NoPipe)
      \<and> (c_phase c = Queued \<or> stat_pending (c_phase c) \<longrightarrow> c_onerror c = NoListener)
      \<and> (c_phase c = Queued \<or> c_phase c = AwaitMkdirp \<longrightarrow> c_pipe c = NoPipe)
      \<and> (c_phase c = Proxying \<longrightarrow> c_onerror c = Once)
      \<and> (c_phase c = AwaitResponse \<or> filling (c_phase c) \<longrightarrow> c_onerror c = On)
      \<and> (filling (c_phase c) \<longrightarrow>
           (\<exists>ores. c_ores c = Some ores \<and> 200 \<le> ores_statusCode ores
               \<and> ores_statusCode ores < 300)))"

definition inv_res :: "server \<Rightarrow> bool" where
  "inv_res s =
     (\<forall>rid c. closures s rid = Some c \<longrightarrow> (\<exists>r. responses s rid = Some r \<and> res_ok c r))"

definition inv :: "server \<Rightarrow> bool" where
  "inv s = (inv_queue s \<and> inv_res s)"

text \<open>The states the server can be in: from \<open>start\<close>, by callbacks that return.\<close>

inductive reachable :: "config \<Rightarrow> nodelib \<Rightarrow> server \<Rightarrow> bool" for cfg lib where
  reachable_start: "reachable cfg lib (start fs)"
| reachable_step: "reachable cfg lib s \<Longrightarrow> step cfg lib e s = Inr s' \<Longrightarrow> reachable cfg lib s'"

definition example_lib :: nodelib where
  "example_lib =
     \<lparr> mime_lookup = (\<lambda>f. ''image/png''), toUTCString = (\<lambda>t. ''Thu, 01 Jan 1970 00:00:00 GMT''),
       url_host = (\<lambda>u. ''backend:8000'') \<rparr>"

definition example_opts :: opts where
  "example_opts =
     \<lparr> opts_host = ''0.0.0.0'', opts_port = 8080, opts_backendUrl = ''http://backend:8000'',
       opts_cacheDir = ''/cache'', opts_regex = None, opts_noProxyHeaders = None,
       opts_cacheMethods = None \<rparr>"

definition example_request :: "string \<Rightarrow> string \<Rightarrow> request" where
  "example_request m p = \<lparr> req_method = m, req_pathname = p, req_path = p, req_headers = [] \<rparr>"

definition state_after :: "config \<Rightarrow> nodelib \<Rightarrow> event list \<Rightarrow> server" where
  "state_after cfg lib es =
     (case run cfg lib es (start Map.empty) of Inr s \<Rightarrow> s | Inl e \<Rightarrow> start Map.empty)"

definition example_config :: config where
  "example_config = FsCachingServer example_opts"

definition miss_then_queue :: "event list" where
  "miss_then_queue =
     [Request 1 (example_request ''GET'' ''/statusCode/404/x.png''), StatDone 1,
      Request 2 (example_request ''GET'' ''/statusCode/404/x.png''), StatDone 2]"

definition not_found :: upstream_response where
  "not_found =
     \<lparr> ores_statusCode = 404, ores_headers = [(''x-powered-by'', ''tape''), (''date'', ''now'')],
       ores_chunks = [''not '', ''found''] \<rparr>"

definition forwarded :: "(string \<times> string) list \<Rightarrow> (string \<times> string) list" where
  "forwarded hs =
     map (\<lambda>hv. (toLowerCase (fst hv), snd hv)) (filter (\<lambda>hv. fst hv \<notin> set NO_PROXY_HEADERS) hs)"

definition state_from :: "filesystem \<Rightarrow> config \<Rightarrow> nodelib \<Rightarrow> event list \<Rightarrow> server" where
  "state_from fs cfg lib es =
     (case run cfg lib es (start fs) of Inr s \<Rightarrow> s | Inl e \<Rightarrow> start fs)"

definition cached_fs :: filesystem where
  "cached_fs = [''/cache/x.png'' \<mapsto> File ''hello'' 7]"

definition conditional_request :: "string \<Rightarrow> string \<Rightarrow> string \<Rightarrow> request" where
  "conditional_request m p tag =
     \<lparr> req_method = m, req_pathname = p, req_path = p, req_headers = [(''if-none-match'', tag)] \<rparr>"

definition configured_opts :: opts where
  "configured_opts = example_opts\<lparr> opts_noProxyHeaders := Some [''x-internal''] \<rparr>"

definition login_request :: request where
  "login_request =
     \<lparr> req_method = ''POST'', req_pathname = ''/login'', req_path = ''/login'',
       req_headers = [(''x-internal'', ''secret''), (''date'', ''now'')] \<rparr>"

definition login_response :: upstream_response where
  "login_response =
     \<lparr> ores_statusCode = 200, ores_headers = [(''x-internal'', ''trace''), (''date'', ''then'')],
       ores_chunks = [] \<rparr>"

definition unsendable :: upstream_response where
  "unsendable = \<lparr> ores_statusCode = 99, ores_headers = [], ores_chunks = [] \<rparr>"

section \<open>Lemmas\<close>

subsection \<open>Paths\<close>

lemma split_slash_nonempty: "split_slash p \<noteq> []"
  by (induction p) (auto split: list.splits)

lemma split_slash_append:
  "split_slash (xs @ CHR ''/'' # ys) = split_slash xs @ split_slash ys"
proof (induction xs)
  case Nil
  show ?case by simp
next
  case (Cons c cs)
  obtain s ss where s: "split_slash cs = s # ss"
    using split_slash_nonempty [of cs] by (cases "split_slash cs") auto
  show ?case using Cons s by simp
qed

lemma split_slash_plain: "CHR ''/'' \<notin> set s \<Longrightarrow> split_slash s = [s]"
  by (induction s) auto

lemma split_slash_segments: "seg \<in> set (split_slash p) \<Longrightarrow> CHR ''/'' \<notin> set seg"
proof (induction p arbitrary: seg)
  case Nil
  then show ?case by simp
next
  case (Cons c cs)
  obtain s ss where s: "split_slash cs = s # ss"
    using split_slash_nonempty [of cs] by (cases "split_slash cs") auto
  have "CHR ''/'' \<notin> set s" and "\<And>x. x \<in> set ss \<Longrightarrow> CHR ''/'' \<notin> set x"
    using Cons.IH s by auto
  then show ?case using Cons.prems s by (auto split: if_splits)
qed

lemma split_slash_chars: "seg \<in> set (split_slash p) \<Longrightarrow> set seg \<subseteq> set p"
proof (induction p arbitrary: seg)
  case Nil
  then show ?case by simp
next
  case (Cons c cs)
  obtain s ss where s: "split_slash cs = s # ss"
    using split_slash_nonempty [of cs] by (cases "split_slash cs") auto
  have "set s \<subseteq> set cs" and "\<And>x. x \<in> set ss \<Longrightarrow> set x \<subseteq> set cs"
    using Cons.IH s by auto
  then show ?case using Cons.prems s by (auto split: if_splits)
qed

lemma split_join_slash:
  "xs \<noteq> [] \<Longrightarrow> (\<forall>s \<in> set xs. CHR ''/'' \<notin> set s) \<Longrightarrow> split_slash (join_slash xs) = xs"
proof (induction xs rule: join_slash.induct)
  case 1
  then show ?case by simp
next
  case (2 s)
  then show ?case by (simp add: split_slash_plain)
next
  case (3 s t ss)
  then show ?case by (simp add: split_slash_append split_slash_plain)
qed

lemma join_slash_chars: "set (join_slash xs) \<subseteq> (\<Union>s \<in> set xs. set s) \<union> {CHR ''/''}"
  by (induction xs rule: join_slash.induct) auto

lemma join_slash_append:
  "xs \<noteq> [] \<Longrightarrow> ys \<noteq> [] \<Longrightarrow> join_slash (xs @ ys) = join_slash xs @ CHR ''/'' # join_slash ys"
proof (induction xs rule: join_slash.induct)
  case 1
  then show ?case by simp
next
  case (2 s)
  then show ?case by (cases ys) auto
next
  case (3 s t ss)
  then show ?case by simp
qed

lemma join_slash_empty: "kept xs \<Longrightarrow> (join_slash xs = []) = (xs = [])"
  by (cases xs rule: join_slash.cases) (auto simp: kept_def)

lemma join_slash_last:
  "kept xs \<Longrightarrow> xs \<noteq> [] \<Longrightarrow> last (join_slash xs) \<noteq> CHR ''/''"
proof (induction xs rule: join_slash.induct)
  case 1
  then show ?case by simp
next
  case (2 s)
  then have "s \<noteq> []" "CHR ''/'' \<notin> set s" by (auto simp: kept_def)
  then have "last s \<in> set s" "CHR ''/'' \<notin> set s" by simp_all
  then have "last s \<noteq> CHR ''/''" by metis
  then show ?case by simp
next
  case (3 s t ss)
  have k: "kept (t # ss)" using 3(2) by (simp add: kept_def)
  then have "join_slash (t # ss) \<noteq> []" using join_slash_empty [OF k] by simp
  then show ?case using 3(1) [OF k] by simp
qed

lemma normalize_segment_kept:
  "kept res \<Longrightarrow> CHR ''/'' \<notin> set seg \<Longrightarrow> kept (normalize_segment False res seg)"
  by (auto simp: kept_def normalize_segment_def dest: in_set_butlastD)

lemma foldl_normalize_kept:
  "kept res \<Longrightarrow> (\<forall>seg \<in> set segs. CHR ''/'' \<notin> set seg)
     \<Longrightarrow> kept (foldl (normalize_segment False) res segs)"
  by (induction segs arbitrary: res) (auto simp: normalize_segment_kept)

lemma foldl_normalize_append:
  "kept segs \<Longrightarrow> foldl (normalize_segment b) res segs = res @ segs"
proof (induction segs arbitrary: res)
  case Nil
  then show ?case by simp
next
  case (Cons a segs)
  then have "a \<noteq> []" "a \<noteq> ''.''" "a \<noteq> ''..''" "kept segs" by (auto simp: kept_def)
  then show ?case using Cons.IH [of "res @ [a]"] by (simp add: normalize_segment_def)
qed

text \<open>The characters of a normalized path are those of the path, slashes and dots.\<close>

lemma normalize_segment_chars:
  assumes "\<forall>s \<in> set res. set s \<subseteq> A" "set seg \<subseteq> A" "CHR ''.'' \<in> A"
  shows "\<forall>s \<in> set (normalize_segment b res seg). set s \<subseteq> A"
  using assms by (auto simp: normalize_segment_def dest: in_set_butlastD)

lemma foldl_normalize_chars:
  assumes "\<forall>s \<in> set res. set s \<subseteq> A" "\<forall>seg \<in> set segs. set seg \<subseteq> A" "CHR ''.'' \<in> A"
  shows "\<forall>s \<in> set (foldl (normalize_segment b) res segs). set s \<subseteq> A"
  using assms
proof (induction segs arbitrary: res)
  case Nil
  then show ?case by simp
next
  case (Cons a segs)
  have "\<forall>s \<in> set (normalize_segment b res a). set s \<subseteq> A"
    using Cons.prems by (intro normalize_segment_chars) auto
  then show ?case using Cons.IH [of "normalize_segment b res a"] Cons.prems by simp
qed

lemma posix_normalize_chars: "set (posix_normalize p) \<subseteq> set p \<union> {CHR ''/'', CHR ''.''}"
proof -
  let ?A = "set p \<union> {CHR ''/'', CHR ''.''}"
  have "\<forall>s \<in> set (foldl (normalize_segment b) [] (split_slash p)). set s \<subseteq> ?A" for b
    by (rule foldl_normalize_chars) (use split_slash_chars [of _ p] in auto)
  then have "set (normalizeString p b) \<subseteq> ?A" for b
    unfolding normalizeString_def using join_slash_chars by fastforce
  then show ?thesis
    by (auto simp: posix_normalize_def Let_def)
qed

lemma path_join_chars: "set (path_join a b) \<subseteq> set a \<union> set b \<union> {CHR ''/'', CHR ''.''}"
  using posix_normalize_chars [of a] posix_normalize_chars [of b]
    posix_normalize_chars [of "a @ CHR ''/'' # b"]
  by (auto simp: path_join_def)

text \<open>
  The normalized form of a path that begins with a slash: a slash, the kept segments
  joined by slashes, and the trailing slash of the path; the kept segments are not
  empty, not \<open>.\<close> and not \<open>..\<close>.
\<close>

lemma posix_normalize_absolute:
  assumes "d \<noteq> []" "hd d = CHR ''/''"
  shows "\<exists>segs. kept segs
     \<and> posix_normalize d =
         (if segs = [] then ''/''
          else CHR ''/'' # join_slash segs @ (if last d = CHR ''/'' then ''/'' else []))"
proof -
  let ?res = "foldl (normalize_segment False) [] (split_slash d)"
  have k: "kept ?res"
    by (rule foldl_normalize_kept) (auto simp: kept_def dest: split_slash_segments)
  show ?thesis
    using assms k join_slash_empty [OF k]
    by (intro exI [of _ ?res]) (auto simp: posix_normalize_def normalizeString_def Let_def)
qed

lemma split_slash_kept:
  assumes "kept segs" "segs \<noteq> []"
  shows "split_slash (CHR ''/'' # join_slash segs) = [] # segs"
    "split_slash (CHR ''/'' # join_slash segs @ ''/'') = [] # segs @ [[]]"
proof -
  have sp: "split_slash (join_slash segs) = segs"
    using assms by (intro split_join_slash) (auto simp: kept_def)
  show "split_slash (CHR ''/'' # join_slash segs) = [] # segs" using sp by simp
  show "split_slash (CHR ''/'' # join_slash segs @ ''/'') = [] # segs @ [[]]"
    using sp split_slash_append [of "join_slash segs" "[]"] by simp
qed

lemma normalize_absolute_segments:
  assumes "d \<noteq> []" "hd d = CHR ''/''" "seg \<in> set (split_slash (posix_normalize d))"
  shows "seg \<noteq> ''.'' \<and> seg \<noteq> ''..''"
proof -
  obtain segs where segs: "kept segs"
    "posix_normalize d =
       (if segs = [] then ''/''
        else CHR ''/'' # join_slash segs @ (if last d = CHR ''/'' then ''/'' else []))"
    using posix_normalize_absolute [OF assms(1,2)] by blast
  show ?thesis
  proof (cases "segs = []")
    case True
    then show ?thesis using assms(3) segs(2) by auto
  next
    case False
    then show ?thesis
      using assms(3) segs split_slash_kept [OF segs(1) False]
      by (auto simp: kept_def split: if_splits)
  qed
qed

text \<open>
  Joined to a directory that is itself a normalized absolute path, the normalized form
  of a path that begins with a slash is appended to the directory.
\<close>

lemma path_join_under:
  assumes "cd \<noteq> []" "hd cd = CHR ''/''" "last cd \<noteq> CHR ''/''" "posix_normalize cd = cd"
    "d \<noteq> []" "hd d = CHR ''/''"
  shows "path_join cd (posix_normalize d) = cd @ posix_normalize d"
proof -
  obtain S where S: "kept S"
    "posix_normalize cd =
       (if S = [] then ''/''
        else CHR ''/'' # join_slash S @ (if last cd = CHR ''/'' then ''/'' else []))"
    using posix_normalize_absolute [OF assms(1,2)] by blast
  have Sne: "S \<noteq> []"
  proof
    assume "S = []"
    then have "cd = ''/''" using S(2) assms(4) by simp
    then show False using assms(3) by simp
  qed
  then have cd: "cd = CHR ''/'' # join_slash S" using S(2) assms(3,4) by simp
  have splcd: "split_slash cd = [] # S"
    using cd split_slash_kept(1) [OF S(1) Sne] by simp
  have fcd: "foldl (normalize_segment False) [] (split_slash cd) = S"
    using foldl_normalize_append [OF S(1), of False "[]"]
    by (simp add: splcd normalize_segment_def)
  obtain R where R: "kept R"
    "posix_normalize d =
       (if R = [] then ''/''
        else CHR ''/'' # join_slash R @ (if last d = CHR ''/'' then ''/'' else []))"
    using posix_normalize_absolute [OF assms(5,6)] by blast
  let ?f = "posix_normalize d"
  let ?p = "cd @ CHR ''/'' # ?f"
  have fne: "?f \<noteq> []" using R(2) by (auto split: if_splits)
  have pj: "path_join cd ?f = posix_normalize ?p"
    using assms(1) fne by (simp add: path_join_def)
  have hdp: "hd ?p = CHR ''/''" using assms(1,2) by simp
  have splp: "split_slash ?p = split_slash cd @ split_slash ?f"
    by (rule split_slash_append)
  show ?thesis
  proof (cases "R = []")
    case True
    then have f: "?f = ''/''" using R(2) by simp
    have "split_slash ?f = [[], []]" by (simp add: f)
    then have "foldl (normalize_segment False) [] (split_slash ?p) = S"
      unfolding splp using fcd by (simp add: normalize_segment_def)
    then have "normalizeString ?p False = join_slash S"
      by (simp add: normalizeString_def)
    moreover have "join_slash S \<noteq> []" using join_slash_empty [OF S(1)] Sne by simp
    ultimately have "posix_normalize ?p = CHR ''/'' # join_slash S @ ''/''"
      using hdp f by (simp add: posix_normalize_def Let_def)
    then show ?thesis using pj cd f by simp
  next
    case False
    let ?t = "if last d = CHR ''/'' then ''/'' else []"
    have f: "?f = CHR ''/'' # join_slash R @ ?t" using R(2) False by simp
    have jR: "join_slash R \<noteq> []" using join_slash_empty [OF R(1)] False by simp
    have splf: "foldl (normalize_segment False) S (split_slash ?f) = S @ R"
    proof (cases "last d = CHR ''/''")
      case True
      then have "split_slash ?f = [] # R @ [[]]"
        using f split_slash_kept(2) [OF R(1) False] by simp
      then show ?thesis
        using foldl_normalize_append [OF R(1), of False S]
        by (simp add: normalize_segment_def)
    next
      case False
      then have "split_slash ?f = [] # R"
        using f split_slash_kept(1) [OF R(1) \<open>R \<noteq> []\<close>] by simp
      then show ?thesis
        using foldl_normalize_append [OF R(1), of False S]
        by (simp add: normalize_segment_def)
    qed
    have "foldl (normalize_segment False) [] (split_slash ?p) = S @ R"
      unfolding splp using fcd splf by simp
    then have ns: "normalizeString ?p False = join_slash S @ CHR ''/'' # join_slash R"
      using join_slash_append [OF Sne False] by (simp add: normalizeString_def)
    have lastp: "(last ?p = CHR ''/'') = (last d = CHR ''/'')"
      using f jR join_slash_last [OF R(1) False] by simp
    have "posix_normalize ?p = CHR ''/'' # join_slash S @ CHR ''/'' # join_slash R @ ?t"
      using hdp ns lastp by (simp add: posix_normalize_def Let_def)
    then show ?thesis using pj cd f by simp
  qed
qed

subsection \<open>Exceptions\<close>

lemma bind_err_simps [simp]:
  "bind_err (Inr x) f = f x"
  "bind_err (Inl e) f = Inl e"
  by (simp_all add: bind_err_def)

lemma bind_err_Inr: "(bind_err m f = Inr y) = (\<exists>x. m = Inr x \<and> f x = Inr y)"
  by (cases m) auto

subsection \<open>Effects of the state operations\<close>

lemma update_res_Inr:
  assumes "update_res rid f s = Inr s'"
  shows "closures s' = closures s" "files s' = files s" "inProgress s' = inProgress s"
    "upstream s' = upstream s" "idle s' = idle s" "idle_events s' = idle_events s"
    "\<And>r. r \<noteq> rid \<Longrightarrow> responses s' r = responses s r"
    "\<And>r. (responses s' r = None) = (responses s r = None)"
    "\<And>x. responses s rid = Some x \<Longrightarrow> \<exists>y. f x = Inr y \<and> responses s' rid = Some y"
  using assms by (auto simp: update_res_def bind_err_Inr split: option.splits if_splits)

lemma update_res_Some:
  "responses s rid = Some x \<Longrightarrow> f x = Inr y
     \<Longrightarrow> update_res rid f s = Inr (s\<lparr> responses := (responses s)(rid \<mapsto> y) \<rparr>)"
  by (simp add: update_res_def)

lemma forEach_waiter_Inr:
  assumes "forEach_waiter f ws s = Inr s'"
  shows "closures s' = closures s \<and> files s' = files s \<and> inProgress s' = inProgress s
    \<and> upstream s' = upstream s \<and> idle s' = idle s \<and> idle_events s' = idle_events s
    \<and> (\<forall>r. r \<notin> w_id ` set ws \<longrightarrow> responses s' r = responses s r)
    \<and> (\<forall>r. (responses s' r = None) = (responses s r = None))"
  using assms
proof (induction ws arbitrary: s)
  case Nil
  then show ?case by (simp add: forEach_waiter_def)
next
  case (Cons a ws)
  from Cons.prems obtain s1 where s1: "update_res (w_id a) (f a) s = Inr s1"
    "forEach_waiter f ws s1 = Inr s'"
    by (auto simp: forEach_waiter_def bind_err_Inr)
  show ?case
    using Cons.IH [OF s1(2)] update_res_Inr(1-8) [OF s1(1)] by auto
qed

text \<open>On waiters whose \<open>res\<close> is new, the loop runs through when each call does.\<close>

lemma forEach_waiter_new:
  assumes "distinct (map w_id ws)"
    "\<forall>w \<in> set ws. responses s (w_id w) = Some new_response"
    "\<forall>w \<in> set ws. f w new_response = Inr (g w)"
  shows "\<exists>s'. forEach_waiter f ws s = Inr s'
     \<and> (\<forall>w \<in> set ws. responses s' (w_id w) = Some (g w))"
  using assms
proof (induction ws arbitrary: s)
  case Nil
  then show ?case by (simp add: forEach_waiter_def)
next
  case (Cons a ws)
  let ?s1 = "s\<lparr> responses := (responses s)(w_id a \<mapsto> g a) \<rparr>"
  have u: "update_res (w_id a) (f a) s = Inr ?s1"
    using Cons.prems by (intro update_res_Some) auto
  have na: "w_id a \<notin> w_id ` set ws" using Cons.prems(1) by simp
  have "responses ?s1 (w_id w) = Some new_response" if "w \<in> set ws" for w
  proof -
    have "w_id w \<in> w_id ` set ws" using that by (rule imageI)
    then have "w_id w \<noteq> w_id a" using na by metis
    then show ?thesis using Cons.prems(2) that by simp
  qed
  then have "\<forall>w \<in> set ws. responses ?s1 (w_id w) = Some new_response" by blast
  then obtain s' where s': "forEach_waiter f ws ?s1 = Inr s'"
    "\<forall>w \<in> set ws. responses s' (w_id w) = Some (g w)"
    using Cons.IH [of ?s1] Cons.prems by auto
  have "responses s' (w_id a) = Some (g a)"
    using forEach_waiter_Inr [OF s'(1)] na by simp
  then show ?case using s' u by (auto simp: forEach_waiter_def)
qed

lemma set_closure_fields [simp]:
  "closures (set_closure rid c s) = (closures s)(rid \<mapsto> c)"
  "files (set_closure rid c s) = files s"
  "inProgress (set_closure rid c s) = inProgress s"
  "upstream (set_closure rid c s) = upstream s"
  "responses (set_closure rid c s) = responses s"
  "idle (set_closure rid c s) = idle s"
  "idle_events (set_closure rid c s) = idle_events s"
  by (simp_all add: set_closure_def)

lemma checkIdle_fields [simp]:
  "closures (checkIdle s) = closures s"
  "files (checkIdle s) = files s"
  "inProgress (checkIdle s) = inProgress s"
  "upstream (checkIdle s) = upstream s"
  "responses (checkIdle s) = responses s"
  by (simp_all add: checkIdle_def)

lemma send_upstream_fields [simp]:
  "closures (send_upstream cfg lib rid k req s) = closures s"
  "files (send_upstream cfg lib rid k req s) = files s"
  "inProgress (send_upstream cfg lib rid k req s) = inProgress s"
  "responses (send_upstream cfg lib rid k req s) = responses s"
  "idle (send_upstream cfg lib rid k req s) = idle s"
  "idle_events (send_upstream cfg lib rid k req s) = idle_events s"
  by (simp_all add: send_upstream_def Let_def)

text \<open>What \<open>finish\<close> has done when it returns.\<close>

lemma finish_statusCode_Inr:
  assumes "finish_statusCode k code s = Inr s'"
  shows "\<exists>ws. map_of (inProgress s) k = Some ws
    \<and> inProgress s' = AList.delete k (inProgress s)
    \<and> closures s' = closures s \<and> files s' = files s \<and> upstream s' = upstream s
    \<and> (\<forall>r. r \<notin> w_id ` set ws \<longrightarrow> responses s' r = responses s r)
    \<and> (\<forall>r. (responses s' r = None) = (responses s r = None))"
proof -
  obtain ws s1 where ws: "map_of (inProgress s) k = Some ws"
    "forEach_waiter (\<lambda>w. end_with code) ws s = Inr s1"
    "s' = checkIdle (s1\<lparr> inProgress := AList.delete k (inProgress s1) \<rparr>)"
    using assms by (auto simp: finish_statusCode_def bind_err_Inr split: option.splits)
  show ?thesis
    using forEach_waiter_Inr [OF ws(2)] ws(1,3) by auto
qed

lemma finish_ores_Inr:
  assumes "finish_ores lib k ores stats rd s = Inr s'"
  shows "\<exists>ws. map_of (inProgress s) k = Some ws
    \<and> inProgress s' = AList.delete k (inProgress s)
    \<and> closures s' = closures s \<and> files s' = files s \<and> upstream s' = upstream s
    \<and> (\<forall>r. r \<notin> w_id ` set ws \<longrightarrow> responses s' r = responses s r)
    \<and> (\<forall>r. (responses s' r = None) = (responses s r = None))"
proof -
  obtain ws f s1 where ws: "map_of (inProgress s) k = Some ws"
    "forEach_waiter f ws s = Inr s1"
    "s' = checkIdle (s1\<lparr> inProgress := AList.delete k (inProgress s1) \<rparr>)"
    using assms
    by (auto simp: finish_ores_def bind_err_Inr split: option.splits if_splits)
  show ?thesis
    using forEach_waiter_Inr [OF ws(2)] ws(1,3) by auto
qed

subsection \<open>Keeping the invariant\<close>

lemma res_ok_Queued:
  "c_phase c = Queued \<Longrightarrow> res_ok c r = (c_pipe c = NoPipe \<and> c_onerror c = NoListener)"
  by (auto simp: res_ok_def)

lemma inv_res_update:
  assumes "inv_res s" "closures s' = (closures s)(rid \<mapsto> c')"
    "responses s' rid = Some r'" "res_ok c' r'"
    "\<And>r d. r \<noteq> rid \<Longrightarrow> closures s r = Some d \<Longrightarrow>
       (c_phase d \<noteq> Queued \<longrightarrow> responses s' r = responses s r)
       \<and> (responses s' r = None) = (responses s r = None)"
  shows "inv_res s'"
  unfolding inv_res_def
proof (intro allI impI)
  fix r d assume d: "closures s' r = Some d"
  show "\<exists>x. responses s' r = Some x \<and> res_ok d x"
  proof (cases "r = rid")
    case True
    then show ?thesis using assms d by auto
  next
    case False
    then have old: "closures s r = Some d" using assms(2) d by simp
    then obtain x where x: "responses s r = Some x" "res_ok d x"
      using assms(1) unfolding inv_res_def by blast
    show ?thesis
    proof (cases "c_phase d = Queued")
      case True
      obtain y where "responses s' r = Some y"
        using assms(5) [OF False old] x by (cases "responses s' r") auto
      then show ?thesis using True x by (auto simp: res_ok_Queued)
    next
      case False
      then show ?thesis using assms(5) [OF \<open>r \<noteq> rid\<close> old] x by auto
    qed
  qed
qed

lemma waiter_not_self:
  assumes "inv_queue s" "map_of (inProgress s) k = Some ws" "w \<in> set ws"
    "closures s rid = None \<or> (\<exists>c. closures s rid = Some c \<and> c_phase c \<noteq> Queued)"
  shows "w_id w \<noteq> rid"
  using assms unfolding inv_queue_def by fastforce

lemma inv_queue_local:
  assumes "inv_queue s"
    "closures s rid = None \<or> (\<exists>c. closures s rid = Some c \<and> c_phase c \<noteq> Queued)"
    "closures s' = (closures s)(rid \<mapsto> c')"
    "\<And>r. r \<noteq> rid \<Longrightarrow> responses s' r = responses s r"
    "\<And>k ws. map_of (inProgress s') k = Some ws \<Longrightarrow> ws = [] \<or> map_of (inProgress s) k = Some ws"
  shows "inv_queue s'"
  unfolding inv_queue_def
proof (intro allI impI conjI ballI)
  fix k ws assume q: "map_of (inProgress s') k = Some ws"
  then show "distinct (map w_id ws)"
    using assms(1,5) unfolding inv_queue_def by fastforce
next
  fix k ws w assume q: "map_of (inProgress s') k = Some ws" and w: "w \<in> set ws"
  then have old: "map_of (inProgress s) k = Some ws" using assms(5) by fastforce
  have ne: "w_id w \<noteq> rid" using waiter_not_self [OF assms(1) old w assms(2)] .
  obtain c where "closures s (w_id w) = Some c" "c_phase c = Queued" "c_file c = k"
    "c_req c = w_req w" "responses s (w_id w) = Some new_response"
    using assms(1) old w unfolding inv_queue_def by blast
  then show "\<exists>c. closures s' (w_id w) = Some c \<and> c_phase c = Queued \<and> c_file c = k
      \<and> c_req c = w_req w \<and> responses s' (w_id w) = Some new_response"
    using ne assms(3,4) by auto
qed

lemma inv_queue_push:
  assumes "inv_queue s" "closures s rid = Some c" "c_phase c \<noteq> Queued"
    "responses s rid = Some new_response"
    "map_of (inProgress s) (c_file c) = Some ws"
    "closures s' = (closures s)(rid \<mapsto> c\<lparr> c_phase := Queued \<rparr>)"
    "responses s' = responses s"
    "map_of (inProgress s') =
       (map_of (inProgress s))(c_file c \<mapsto> ws @ [\<lparr> w_id = rid, w_req = c_req c \<rparr>])"
  shows "inv_queue s'"
  unfolding inv_queue_def
proof (intro allI impI conjI ballI)
  fix k q assume q: "map_of (inProgress s') k = Some q"
  have "\<And>w. w \<in> set ws \<Longrightarrow> w_id w \<noteq> rid"
    using waiter_not_self [OF assms(1) assms(5)] assms(2,3) by blast
  then have "rid \<notin> w_id ` set ws" by auto
  moreover have "distinct (map w_id ws)" using assms(1,5) unfolding inv_queue_def by blast
  ultimately have "distinct (map w_id (ws @ [\<lparr> w_id = rid, w_req = c_req c \<rparr>]))" by simp
  then show "distinct (map w_id q)"
    using q assms(1,8) unfolding inv_queue_def by (cases "k = c_file c") auto
next
  fix k q w assume q: "map_of (inProgress s') k = Some q" and w: "w \<in> set q"
  show "\<exists>c. closures s' (w_id w) = Some c \<and> c_phase c = Queued \<and> c_file c = k
      \<and> c_req c = w_req w \<and> responses s' (w_id w) = Some new_response"
  proof (cases "w_id w = rid")
    case True
    have "k = c_file c \<and> w = \<lparr> w_id = rid, w_req = c_req c \<rparr>"
    proof (cases "k = c_file c")
      case k: True
      then have "q = ws @ [\<lparr> w_id = rid, w_req = c_req c \<rparr>]" using q assms(8) by simp
      moreover have "\<And>x. x \<in> set ws \<Longrightarrow> w_id x \<noteq> rid"
        using waiter_not_self [OF assms(1) assms(5)] assms(2,3) by blast
      ultimately show ?thesis using w True k by auto
    next
      case False
      then have "map_of (inProgress s) k = Some q" using q assms(8) by simp
      then have "w_id w \<noteq> rid"
        using waiter_not_self [OF assms(1) _ w] assms(2,3) by blast
      then show ?thesis using True by simp
    qed
    then show ?thesis using assms(4,6,7) by auto
  next
    case False
    have "\<exists>old. map_of (inProgress s) k = Some old \<and> w \<in> set old"
    proof (cases "k = c_file c")
      case True
      then have "q = ws @ [\<lparr> w_id = rid, w_req = c_req c \<rparr>]" using q assms(8) by simp
      then have "w \<in> set ws" using w False by auto
      then show ?thesis using True assms(5) by auto
    next
      case False
      then show ?thesis using q w assms(8) by auto
    qed
    then obtain old where "map_of (inProgress s) k = Some old" "w \<in> set old" by blast
    then obtain d where "closures s (w_id w) = Some d" "c_phase d = Queued" "c_file d = k"
      "c_req d = w_req w" "responses s (w_id w) = Some new_response"
      using assms(1) unfolding inv_queue_def by blast
    then show ?thesis using False assms(6,7) by auto
  qed
qed

lemma inv_queue_finish:
  assumes "inv_queue s" "closures s rid = Some c" "c_phase c \<noteq> Queued"
    "map_of (inProgress s) k = Some ws"
    "closures s' = (closures s)(rid \<mapsto> c')"
    "\<And>r. r \<noteq> rid \<Longrightarrow> r \<notin> w_id ` set ws \<Longrightarrow> responses s' r = responses s r"
    "map_of (inProgress s') = (map_of (inProgress s))(k := None)"
  shows "inv_queue s'"
  unfolding inv_queue_def
proof (intro allI impI conjI ballI)
  fix j q assume q: "map_of (inProgress s') j = Some q"
  then show "distinct (map w_id q)"
    using assms(1,7) unfolding inv_queue_def by (auto split: if_splits)
next
  fix j q w assume q: "map_of (inProgress s') j = Some q" and w: "w \<in> set q"
  then have j: "j \<noteq> k" and old: "map_of (inProgress s) j = Some q"
    using assms(7) by (auto split: if_splits)
  obtain d where d: "closures s (w_id w) = Some d" "c_phase d = Queued" "c_file d = j"
    "c_req d = w_req w" "responses s (w_id w) = Some new_response"
    using assms(1) old w unfolding inv_queue_def by blast
  have ne: "w_id w \<noteq> rid" using d assms(2,3) by auto
  have "w_id w \<notin> w_id ` set ws"
  proof
    assume "w_id w \<in> w_id ` set ws"
    then obtain x where x: "x \<in> set ws" "w_id x = w_id w" by auto
    then obtain e where "closures s (w_id x) = Some e" "c_file e = k"
      using assms(1,4) unfolding inv_queue_def by blast
    then show False using d x j by simp
  qed
  then show "\<exists>c. closures s' (w_id w) = Some c \<and> c_phase c = Queued \<and> c_file c = j
      \<and> c_req c = w_req w \<and> responses s' (w_id w) = Some new_response"
    using d ne assms(5,6) by auto
qed

text \<open>A callback that changes only its own request's variables and \<open>res\<close>.\<close>

lemma inv_local:
  assumes "inv s" "closures s rid = Some c" "c_phase c \<noteq> Queued"
    "closures s' = (closures s)(rid \<mapsto> c')" "inProgress s' = inProgress s"
    "\<And>r. r \<noteq> rid \<Longrightarrow> responses s' r = responses s r"
    "responses s' rid = Some r'" "res_ok c' r'"
  shows "inv s'"
  unfolding inv_def
proof (intro conjI)
  show "inv_queue s'"
    by (rule inv_queue_local [where s = s and rid = rid and c' = c'])
      (use assms in \<open>auto simp: inv_def\<close>)
  show "inv_res s'"
    by (rule inv_res_update [where s = s and rid = rid and c' = c' and r' = r'])
      (use assms in \<open>auto simp: inv_def\<close>)
qed

text \<open>A new request.\<close>

lemma inv_new:
  assumes "inv s" "closures s rid = None"
    "closures s' = (closures s)(rid \<mapsto> c')" "inProgress s' = inProgress s"
    "\<And>r. r \<noteq> rid \<Longrightarrow> responses s' r = responses s r"
    "responses s' rid = Some r'" "res_ok c' r'"
  shows "inv s'"
  unfolding inv_def
proof (intro conjI)
  show "inv_queue s'"
    by (rule inv_queue_local [where s = s and rid = rid and c' = c'])
      (use assms in \<open>auto simp: inv_def\<close>)
  show "inv_res s'"
    by (rule inv_res_update [where s = s and rid = rid and c' = c' and r' = r'])
      (use assms in \<open>auto simp: inv_def\<close>)
qed

text \<open>The request is queued on its key.\<close>

lemma inv_push:
  assumes "inv s" "closures s rid = Some c" "stat_pending (c_phase c)"
    "map_of (inProgress s) (c_file c) = Some ws"
    "closures s' = (closures s)(rid \<mapsto> c\<lparr> c_phase := Queued \<rparr>)"
    "responses s' = responses s"
    "inProgress s' =
       AList.update (c_file c) (ws @ [\<lparr> w_id = rid, w_req = c_req c \<rparr>]) (inProgress s)"
  shows "inv s'"
proof -
  obtain r where r: "responses s rid = Some r" "res_ok c r"
    using assms(1,2) unfolding inv_def inv_res_def by blast
  have u: "untouched (c_phase c)" "c_phase c \<noteq> Queued"
    using assms(3) by (cases "c_phase c"; simp)+
  have fresh: "r = new_response" "c_pipe c = NoPipe" "c_onerror c = NoListener"
    using r(2) u assms(3) by (auto simp: res_ok_def)
  show ?thesis
    unfolding inv_def
  proof (intro conjI)
    show "inv_queue s'"
      by (rule inv_queue_push [where s = s and rid = rid and c = c and ws = ws])
        (use assms r fresh u in \<open>auto simp: inv_def update_conv'\<close>)
    show "inv_res s'"
      by (rule inv_res_update [where s = s and rid = rid
            and c' = "c\<lparr> c_phase := Queued \<rparr>" and r' = r])
        (use assms r fresh in \<open>auto simp: inv_def res_ok_def\<close>)
  qed
qed

text \<open>The request registers its key and asks the backend.\<close>

lemma inv_register:
  assumes "inv s" "closures s rid = Some c" "c_phase c \<noteq> Queued"
    "closures s' = (closures s)(rid \<mapsto> c')"
    "inProgress s' = AList.update k [] (inProgress s)"
    "responses s' = responses s" "responses s rid = Some r" "res_ok c' r"
  shows "inv s'"
  unfolding inv_def
proof (intro conjI)
  show "inv_queue s'"
    by (rule inv_queue_local [where s = s and rid = rid and c' = c'])
      (use assms in \<open>auto simp: inv_def update_conv' split: if_splits\<close>)
  show "inv_res s'"
    by (rule inv_res_update [where s = s and rid = rid and c' = c' and r' = r])
      (use assms in \<open>auto simp: inv_def\<close>)
qed

text \<open>\<open>finish\<close> has run on the key \<open>k\<close>, from a callback of the request \<open>rid\<close>.\<close>

lemma inv_finish:
  assumes "inv s" "closures s rid = Some c" "c_phase c \<noteq> Queued"
    "map_of (inProgress s) k = Some ws"
    "closures s' = (closures s)(rid \<mapsto> c')"
    "inProgress s' = AList.delete k (inProgress s)"
    "\<And>r. r \<noteq> rid \<Longrightarrow> r \<notin> w_id ` set ws \<Longrightarrow> responses s' r = responses s r"
    "\<And>r. (responses s' r = None) = (responses s r = None)"
    "responses s' rid = Some r'" "res_ok c' r'"
  shows "inv s'"
  unfolding inv_def
proof (intro conjI)
  have del: "map_of (inProgress s') = (map_of (inProgress s))(k := None)"
    using assms(6) by (simp add: delete_conv')
  show "inv_queue s'"
    by (rule inv_queue_finish [where s = s and rid = rid and c = c and k = k and ws = ws
          and c' = c'])
      (use assms del in \<open>auto simp: inv_def\<close>)
  show "inv_res s'"
  proof (rule inv_res_update [where s = s and rid = rid and c' = c' and r' = r'])
    fix r d assume r: "r \<noteq> rid" "closures s r = Some d"
    have "responses s' r = responses s r" if "c_phase d \<noteq> Queued"
    proof -
      have "r \<notin> w_id ` set ws"
      proof
        assume "r \<in> w_id ` set ws"
        then obtain w where "w \<in> set ws" "w_id w = r" by auto
        then have "c_phase d = Queued"
          using assms(1,4) r(2) unfolding inv_def inv_queue_def by fastforce
        then show False using that by simp
      qed
      then show ?thesis using assms(7) r(1) by simp
    qed
    then show "(c_phase d \<noteq> Queued \<longrightarrow> responses s' r = responses s r)
       \<and> (responses s' r = None) = (responses s r = None)"
      using assms(8) by simp
  qed (use assms in \<open>auto simp: inv_def\<close>)
qed

lemma inv_res_ok:
  "inv s \<Longrightarrow> closures s rid = Some c \<Longrightarrow> responses s rid = Some r \<Longrightarrow> res_ok c r"
  unfolding inv_def inv_res_def by fastforce

lemma res_ok_Closed [simp]: "c_phase c = Closed \<Longrightarrow> res_ok c r"
  by (simp add: res_ok_def)

lemma res_ok_touched: "res_ok c r \<Longrightarrow> \<not> untouched (c_phase c) \<Longrightarrow> res_ok c r'"
  by (simp add: res_ok_def)

lemma stat_pending_untouched: "stat_pending ph \<Longrightarrow> untouched ph \<and> ph \<noteq> Queued"
  by (cases ph) auto

subsection \<open>The callbacks keep the invariant\<close>

lemma inv_onRequest:
  assumes "inv s" "closures s rid = None" "onRequest cfg lib rid req s = Inr s'"
  shows "inv s'"
proof -
  obtain c' r' where f: "closures s' = (closures s)(rid \<mapsto> c')" "inProgress s' = inProgress s"
    "\<And>r. r \<noteq> rid \<Longrightarrow> responses s' r = responses s r" "responses s' rid = Some r'"
    "res_ok c' r'"
    using assms(3)
    by (auto simp: onRequest_def Let_def update_res_def bind_err_Inr res_ok_def
        split: option.splits if_splits)
  show ?thesis by (rule inv_new [OF assms(1,2) f])
qed

lemma inv_onStat:
  assumes "inv s" "closures s rid = Some c" "responses s rid = Some res"
    "stat_pending (c_phase c)" "onStat cfg lib rid c stats s = Inr s'"
  shows "inv s'"
proof -
  have ok: "res_ok c res" using assms(1-3) by (rule inv_res_ok)
  have u: "untouched (c_phase c)" "c_phase c \<noteq> Queued"
    using stat_pending_untouched [OF assms(4)] by auto
  have fresh: "res = new_response" "c_pipe c = NoPipe" "c_onerror c = NoListener"
    using ok u assms(4) by (auto simp: res_ok_def)
  show ?thesis
  proof (cases stats)
    case (Some st)
    then obtain r' where f: "closures s' = (closures s)(rid \<mapsto> c\<lparr> c_phase := Closed \<rparr>)"
      "inProgress s' = inProgress s"
      "\<And>r. r \<noteq> rid \<Longrightarrow> responses s' r = responses s r" "responses s' rid = Some r'"
      using assms(3,5)
      by (auto simp: onStat_def Let_def update_res_def bind_err_Inr split: if_splits)
    show ?thesis
      by (rule inv_local [OF assms(1,2) u(2) f]) simp_all
  next
    case None
    show ?thesis
    proof (cases "map_of (inProgress s) (c_file c)")
      case (Some ws)
      show ?thesis
        by (rule inv_push [OF assms(1,2,4) Some])
          (use assms(5) None Some in \<open>auto simp: onStat_def Let_def hap_def\<close>)
    next
      case nr: None
      let ?c' = "c\<lparr> c_phase := AwaitResponse, c_onerror := On \<rparr>"
      have "res_ok ?c' res" using fresh by (simp add: res_ok_def)
      then show ?thesis
        by (intro inv_register [OF assms(1,2) u(2), where c' = ?c' and k = "c_file c"
              and r = res])
          (use assms(3,5) None nr in \<open>auto simp: onStat_def Let_def hap_def\<close>)
    qed
  qed
qed

lemma inv_StatRead:
  assumes "inv s" "closures s rid = Some c" "responses s rid = Some res"
    "c_phase c = AwaitStat"
  shows "inv (set_closure rid (c\<lparr> c_phase := StatResult stats \<rparr>) s)"
proof -
  have ok: "res_ok c res" using assms(1-3) by (rule inv_res_ok)
  then have "res_ok (c\<lparr> c_phase := StatResult stats \<rparr>) res"
    using assms(4) by (simp add: res_ok_def)
  then show ?thesis
    by (intro inv_local [OF assms(1,2), where r' = res and c' = "c\<lparr> c_phase := StatResult stats \<rparr>"])
      (use assms in auto)
qed

lemma copy_header_fields:
  "copy_header hv r = Inr r' \<Longrightarrow> statusCode r' = statusCode r \<and> res_body r' = res_body r
     \<and> res_ended r' = res_ended r \<and> res_headersSent r' = res_headersSent r"
  by (auto simp: copy_header_def setHeader_def split: if_splits)

lemma copy_response_headers_fields:
  "copy_response_headers ores r = Inr r' \<Longrightarrow> statusCode r' = statusCode r
     \<and> res_body r' = res_body r \<and> res_ended r' = res_ended r
     \<and> res_headersSent r' = res_headersSent r"
  unfolding copy_response_headers_def
proof (induction "ores_headers ores" arbitrary: r ores)
  case Nil
  then show ?case by simp
next
  case (Cons hv hs)
  from Cons(2) [symmetric] Cons(3) obtain r1 where r1: "copy_header hv r = Inr r1"
    "fold_err copy_header hs r1 = Inr r'"
    by (auto simp: bind_err_Inr)
  have "fold_err copy_header (ores_headers (ores\<lparr> ores_headers := hs \<rparr>)) r1 = Inr r'"
    using r1 by simp
  from Cons(1) [OF _ this] copy_header_fields [OF r1(1)] show ?case by simp
qed

lemma inv_onProxyResponse:
  assumes "inv s" "closures s rid = Some c" "responses s rid = Some res"
    "c_phase c = Proxying" "onProxyResponse rid c ores s = Inr s'"
  shows "inv s'"
proof -
  let ?c' = "c\<lparr> c_phase := Closed, c_ores := Some ores, c_pipe := Piping (ores_chunks ores) \<rparr>"
  obtain r' where f: "closures s' = (closures s)(rid \<mapsto> ?c')" "inProgress s' = inProgress s"
    "\<And>r. r \<noteq> rid \<Longrightarrow> responses s' r = responses s r" "responses s' rid = Some r'"
    using assms(3,5)
    by (auto simp: onProxyResponse_def update_res_def bind_err_Inr)
  show ?thesis
    by (rule inv_local [OF assms(1,2) _ f]) (use assms(4) in auto)
qed

lemma inv_onProxyError:
  assumes "inv s" "closures s rid = Some c" "responses s rid = Some res"
    "c_onerror c = Once" "onProxyError rid c s = Inr s'"
  shows "inv s'"
proof -
  have ok: "res_ok c res" using assms(1-3) by (rule inv_res_ok)
  let ?c' = "c\<lparr> c_phase := (if c_phase c = Proxying then Closed else c_phase c),
                c_onerror := NoListener \<rparr>"
  obtain r' where f: "closures s' = (closures s)(rid \<mapsto> ?c')" "inProgress s' = inProgress s"
    "\<And>r. r \<noteq> rid \<Longrightarrow> responses s' r = responses s r" "responses s' rid = Some r'"
    using assms(3,5)
    by (auto simp: onProxyError_def update_res_def bind_err_Inr)
  have ph: "c_phase c = Proxying \<or> c_phase c = Closed"
    using ok assms(4) by (cases "c_phase c") (auto simp: res_ok_def)
  then have "res_ok ?c' r'" by auto
  then show ?thesis
    by (intro inv_local [OF assms(1,2) _ f]) (use ph in auto)
qed

text \<open>\<open>finish({statusCode: code})\<close> from a callback of a request that is not queued.\<close>

lemma inv_finish_statusCode:
  assumes "inv s" "closures s rid = Some c" "c_phase c \<noteq> Queued"
    "closures s0 = closures s" "inProgress s0 = inProgress s"
    "\<And>r. r \<noteq> rid \<Longrightarrow> responses s0 r = responses s r"
    "\<And>r. (responses s0 r = None) = (responses s r = None)"
    "finish_statusCode k code s0 = Inr s1"
    "closures s' = (closures s1)(rid \<mapsto> c')" "inProgress s' = inProgress s1"
    "\<And>r. r \<noteq> rid \<Longrightarrow> responses s' r = responses s1 r"
    "\<And>r. (responses s' r = None) = (responses s1 r = None)"
    "\<And>r'. res_ok c' r'"
  shows "inv s'"
proof -
  obtain ws where ws: "map_of (inProgress s0) k = Some ws"
    "inProgress s1 = AList.delete k (inProgress s0)" "closures s1 = closures s0"
    "\<And>r. r \<notin> w_id ` set ws \<Longrightarrow> responses s1 r = responses s0 r"
    "\<And>r. (responses s1 r = None) = (responses s0 r = None)"
    using finish_statusCode_Inr [OF assms(8)] by blast
  obtain res where "responses s rid = Some res"
    using assms(1,2) unfolding inv_def inv_res_def by blast
  then obtain r' where r': "responses s' rid = Some r'"
    using assms(7,12) ws(5) by (cases "responses s' rid") auto
  show ?thesis
    by (rule inv_finish [OF assms(1,2,3), where k = k and ws = ws and c' = c' and r' = r'])
      (use assms ws r' in auto)
qed

lemma inv_onResponse:
  assumes "inv s" "closures s rid = Some c" "responses s rid = Some res"
    "c_phase c = AwaitResponse" "onResponse rid c res ores s = Inr s'"
  shows "inv s'"
proof -
  have ok: "res_ok c res" using assms(1-3) by (rule inv_res_ok)
  then have fresh: "c_pipe c = NoPipe" "c_onerror c = On"
    using assms(4) by (auto simp: res_ok_def)
  obtain res1 where res1:
    "copy_response_headers ores (res\<lparr> statusCode := ores_statusCode ores \<rparr>) = Inr res1"
    using assms(5) by (auto simp: onResponse_def bind_err_Inr)
  have st: "statusCode res1 = ores_statusCode ores"
    using copy_response_headers_fields [OF res1] by simp
  let ?s1 = "s\<lparr> responses := (responses s)(rid \<mapsto> res1) \<rparr>"
  show ?thesis
  proof (cases "statusCode res1 < 200 \<or> 300 \<le> statusCode res1")
    case True
    then obtain s2 s3 where s2: "finish_statusCode (c_file c) (statusCode res1) ?s1 = Inr s2"
      "update_res rid res_end s2 = Inr s3" "s' = set_closure rid (c\<lparr> c_phase := Closed \<rparr>) s3"
      using assms(5) res1 by (auto simp: onResponse_def Let_def bind_err_Inr)
    show ?thesis
      by (rule inv_finish_statusCode [OF assms(1,2) _ _ _ _ _ s2(1),
            where c' = "c\<lparr> c_phase := Closed \<rparr>"])
        (use assms(3,4) s2(3) update_res_Inr(1,3,7,8) [OF s2(2)] in auto)
  next
    case False
    then have s': "s' = set_closure rid (c\<lparr> c_phase := AwaitMkdirp, c_ores := Some ores \<rparr>) ?s1"
      using assms(5) res1 by (auto simp: onResponse_def Let_def)
    have "res_ok (c\<lparr> c_phase := AwaitMkdirp, c_ores := Some ores \<rparr>) res1"
      using False st fresh by (simp add: res_ok_def)
    then show ?thesis
      by (intro inv_local [OF assms(1,2), where r' = res1
            and c' = "c\<lparr> c_phase := AwaitMkdirp, c_ores := Some ores \<rparr>"])
        (use assms(4) s' in auto)
  qed
qed

lemma inv_keep_res:
  assumes "inv s" "closures s rid = Some c" "responses s rid = Some res"
    "c_phase c \<noteq> Queued" "res_ok c' res"
    "closures s' = (closures s)(rid \<mapsto> c')" "inProgress s' = inProgress s"
    "responses s' = responses s"
  shows "inv s'"
  by (rule inv_local [OF assms(1,2,4), where r' = res and c' = c']) (use assms in auto)

lemma inv_onMkdirp:
  assumes "inv s" "closures s rid = Some c" "responses s rid = Some res"
    "c_phase c = AwaitMkdirp" "c_ores c = Some ores"
  shows "inv (onMkdirp rid c ores t s)"
proof -
  have ok: "res_ok c res" using assms(1-3) by (rule inv_res_ok)
  show ?thesis
    by (rule inv_keep_res [OF assms(1-3)])
      (use assms(4,5) ok in \<open>auto simp: onMkdirp_def Let_def res_ok_def\<close>)
qed

lemma inv_onWsWrite:
  assumes "inv s" "closures s rid = Some c" "responses s rid = Some res"
    "c_phase c = Streaming"
  shows "inv (onWsWrite rid c chunk rest t s)"
proof -
  have ok: "res_ok c res" using assms(1-3) by (rule inv_res_ok)
  show ?thesis
    by (rule inv_keep_res [OF assms(1-3)])
      (use assms(4) ok in \<open>auto simp: onWsWrite_def res_ok_def\<close>)
qed

lemma inv_onWsFinish:
  assumes "inv s" "closures s rid = Some c" "responses s rid = Some res"
    "c_phase c = Streaming"
  shows "inv (onWsFinish rid c s)"
proof -
  have ok: "res_ok c res" using assms(1-3) by (rule inv_res_ok)
  show ?thesis
    by (rule inv_keep_res [OF assms(1-3)])
      (use assms(4) ok in \<open>auto simp: onWsFinish_def res_ok_def\<close>)
qed

lemma inv_finish_500:
  assumes "inv s" "closures s rid = Some c" "c_phase c \<noteq> Queued"
    "bind_err (finish_statusCode (c_file c) 500 s)
       (\<lambda>s1. Inr (set_closure rid (c\<lparr> c_phase := Closed \<rparr>) s1)) = Inr s'"
  shows "inv s'"
proof -
  obtain s1 where s1: "finish_statusCode (c_file c) 500 s = Inr s1"
    "s' = set_closure rid (c\<lparr> c_phase := Closed \<rparr>) s1"
    using assms(4) by (auto simp: bind_err_Inr)
  show ?thesis
    by (rule inv_finish_statusCode [OF assms(1-3) _ _ _ _ s1(1),
          where c' = "c\<lparr> c_phase := Closed \<rparr>"])
      (use s1(2) in auto)
qed

lemma inv_onWsError:
  assumes "inv s" "closures s rid = Some c" "c_phase c = Streaming"
    "onWsError rid c s = Inr s'"
  shows "inv s'"
  by (rule inv_finish_500 [OF assms(1,2)]) (use assms(3,4) in \<open>auto simp: onWsError_def\<close>)

lemma inv_onRename:
  assumes "inv s" "closures s rid = Some c" "responses s rid = Some res"
    "c_phase c = AwaitRename" "onRename rid c fail s = Inr s'"
  shows "inv s'"
proof (cases "if fail then None else fs_rename (tmp_of (c_file c)) (c_file c) (files s)")
  case None
  show ?thesis
    by (rule inv_finish_500 [OF assms(1,2)])
      (use assms(4,5) None in \<open>auto simp: onRename_def\<close>)
next
  case (Some fs)
  have ok: "res_ok c res" using assms(1-3) by (rule inv_res_ok)
  show ?thesis
    by (rule inv_keep_res [OF assms(1-3), where c' = "c\<lparr> c_phase := AwaitFinishStat \<rparr>"])
      (use assms(4,5) Some ok in \<open>auto simp: onRename_def res_ok_def\<close>)
qed

lemma inv_FinishStatRead:
  assumes "inv s" "closures s rid = Some c" "responses s rid = Some res"
    "c_phase c = AwaitFinishStat"
  shows "inv (set_closure rid (c\<lparr> c_phase := FinishStatResult stats \<rparr>) s)"
proof -
  have ok: "res_ok c res" using assms(1-3) by (rule inv_res_ok)
  show ?thesis
    by (rule inv_keep_res [OF assms(1-3)])
      (use assms(4) ok in \<open>auto simp: res_ok_def\<close>)
qed

lemma inv_onFinishStat:
  assumes "inv s" "closures s rid = Some c" "responses s rid = Some res"
    "c_phase c \<noteq> Queued" "onFinishStat lib rid c ores stats s = Inr s'"
  shows "inv s'"
proof -
  obtain s1 where s1:
    "finish_ores lib (c_file c) ores stats (fs_read (files s) (c_file c)) s = Inr s1"
    "s' = set_closure rid (c\<lparr> c_phase := Closed \<rparr>) s1"
    using assms(5) by (auto simp: onFinishStat_def bind_err_Inr)
  obtain ws where ws: "map_of (inProgress s) (c_file c) = Some ws"
    "inProgress s1 = AList.delete (c_file c) (inProgress s)" "closures s1 = closures s"
    "\<And>r. r \<notin> w_id ` set ws \<Longrightarrow> responses s1 r = responses s r"
    "\<And>r. (responses s1 r = None) = (responses s r = None)"
    using finish_ores_Inr [OF s1(1)] by blast
  obtain r' where r': "responses s' rid = Some r'"
    using assms(3) ws(5) s1(2) by (cases "responses s' rid") auto
  show ?thesis
    by (rule inv_finish [OF assms(1,2,4) ws(1), where c' = "c\<lparr> c_phase := Closed \<rparr>" and r' = r'])
      (use ws s1(2) r' in auto)
qed

lemma inv_onOreqError:
  assumes "inv s" "closures s rid = Some c" "responses s rid = Some res"
    "c_onerror c = On" "onOreqError rid c s = Inr s'"
  shows "inv s'"
proof -
  have ok: "res_ok c res" using assms(1-3) by (rule inv_res_ok)
  let ?c' = "c\<lparr> c_phase := (if c_phase c = AwaitResponse then Closed else c_phase c) \<rparr>"
  obtain s1 s2 where s1: "update_res rid (end_with 500) s = Inr s1"
    "finish_statusCode (c_file c) 500 s1 = Inr s2" "s' = set_closure rid ?c' s2"
    using assms(5) by (auto simp: onOreqError_def bind_err_Inr)
  have nq: "c_phase c \<noteq> Queued" using ok assms(4) by (auto simp: res_ok_def)
  have "untouched (c_phase c) \<Longrightarrow> c_phase c = AwaitResponse"
    using ok assms(4) by (cases "c_phase c") (auto simp: res_ok_def)
  then have "\<And>r'. res_ok ?c' r'"
    using res_ok_touched [OF ok] by (cases "c_phase c = AwaitResponse") auto
  then show ?thesis
    by (intro inv_finish_statusCode [OF assms(1,2) nq _ _ _ _ s1(2), where c' = ?c'])
      (use s1(3) update_res_Inr(1,3,7,8) [OF s1(1)] in auto)
qed

lemma inv_onPipe:
  assumes "inv s" "closures s rid = Some c" "responses s rid = Some res"
    "onPipe rid c s = Inr s'"
  shows "inv s'"
proof (cases "\<exists>todo. c_pipe c = Piping todo")
  case False
  then have "s' = s" using assms(4) by (cases "c_pipe c") (auto simp: onPipe_def)
  then show ?thesis using assms(1) by simp
next
  case True
  then obtain todo where todo: "c_pipe c = Piping todo" by blast
  have ok: "res_ok c res" using assms(1-3) by (rule inv_res_ok)
  have ph: "\<not> untouched (c_phase c)" "c_phase c \<noteq> Queued" "c_phase c \<noteq> AwaitMkdirp"
    using ok todo by (auto simp: res_ok_def)
  obtain p r' where f: "closures s' = (closures s)(rid \<mapsto> c\<lparr> c_pipe := p \<rparr>)"
    "inProgress s' = inProgress s"
    "\<And>r. r \<noteq> rid \<Longrightarrow> responses s' r = responses s r" "responses s' rid = Some r'"
    using assms(3,4) todo
    by (cases todo) (auto simp: onPipe_def update_res_def bind_err_Inr)
  have "res_ok (c\<lparr> c_pipe := p \<rparr>) r'"
    using ok ph by (simp add: res_ok_def)
  then show ?thesis
    by (intro inv_local [OF assms(1,2) ph(2) f])
qed

lemma inv_dispatch:
  assumes "inv s" "closures s rid = Some c" "responses s rid = Some res"
    "dispatch cfg lib e rid c res s = Inr s'"
  shows "inv s'"
proof (cases e)
  case (Request r req)
  then show ?thesis using assms by simp
next
  case (StatRead r)
  then show ?thesis
    using assms inv_StatRead [OF assms(1-3)] by (auto split: if_splits)
next
  case (StatDone r)
  then show ?thesis
    using assms(4) inv_onStat [OF assms(1-3)] assms(1)
    by (cases "c_phase c") auto
next
  case (Response r ores)
  then show ?thesis
    using assms(4) inv_onProxyResponse [OF assms(1-3)] inv_onResponse [OF assms(1-3)] assms(1)
    by (auto split: if_splits)
next
  case (OreqError r)
  then show ?thesis
    using assms(4) inv_onProxyError [OF assms(1-3)] inv_onOreqError [OF assms(1-3)] assms(1)
    by (cases "c_onerror c") auto
next
  case (MkdirpDone r t)
  then show ?thesis
    using assms(4) inv_onMkdirp [OF assms(1-3)] assms(1)
    by (auto split: option.splits if_splits)
next
  case (WsWrite r t)
  then show ?thesis
    using assms(4) inv_onWsWrite [OF assms(1-3)] assms(1)
    by (auto split: list.splits if_splits)
next
  case (WsFinish r)
  then show ?thesis
    using assms(4) inv_onWsFinish [OF assms(1-3)] assms(1)
    by (auto split: if_splits)
next
  case (WsError r)
  then show ?thesis
    using assms(4) inv_onWsError [OF assms(1,2)] assms(1)
    by (auto split: if_splits)
next
  case (RenameDone r fail)
  then show ?thesis
    using assms(4) inv_onRename [OF assms(1-3)] assms(1)
    by (auto split: if_splits)
next
  case (FinishStatRead r)
  then show ?thesis
    using assms(4) inv_FinishStatRead [OF assms(1-3)] assms(1)
    by (auto split: if_splits)
next
  case (FinishStatDone r)
  then show ?thesis
    using assms(4) inv_onFinishStat [OF assms(1-3)] assms(1)
    by (cases "c_phase c") (auto split: option.splits)
next
  case (Pipe r)
  then show ?thesis
    using assms(4) inv_onPipe [OF assms(1-3)] by auto
qed

lemma inv_step:
  assumes "inv s" "step cfg lib e s = Inr s'"
  shows "inv s'"
proof (cases "closures s (event_id e)")
  case None
  then show ?thesis
    using assms inv_onRequest [OF assms(1)]
    by (cases e) (auto simp: step_def)
next
  case (Some c)
  then obtain res where res: "responses s (event_id e) = Some res"
    using assms(1) unfolding inv_def inv_res_def by blast
  then show ?thesis
    using assms Some inv_dispatch [OF assms(1) Some res] by (simp add: step_def)
qed

lemma inv_start: "inv (start fs)"
  by (simp add: inv_def inv_queue_def inv_res_def start_def)

lemma reachable_inv: "reachable cfg lib s \<Longrightarrow> inv s"
  by (induction rule: reachable.induct) (auto intro: inv_start inv_step)

subsection \<open>Runs\<close>

lemma run_reachable:
  "reachable cfg lib s \<Longrightarrow> run cfg lib es s = Inr s' \<Longrightarrow> reachable cfg lib s'"
proof (induction es arbitrary: s)
  case Nil
  then show ?case by simp
next
  case (Cons e es)
  then show ?case by (auto split: sum.splits intro: reachable_step)
qed

lemma state_after_reachable: "reachable cfg lib (state_after cfg lib es)"
proof (cases "run cfg lib es (start Map.empty)")
  case (Inl a)
  then show ?thesis by (simp add: state_after_def reachable_start)
next
  case (Inr s)
  then show ?thesis
    using run_reachable [OF reachable_start Inr] by (simp add: state_after_def)
qed

lemma state_from_reachable: "reachable cfg lib (state_from fs cfg lib es)"
proof (cases "run cfg lib es (start fs)")
  case (Inl a)
  then show ?thesis by (simp add: state_from_def reachable_start)
next
  case (Inr s)
  then show ?thesis
    using run_reachable [OF reachable_start Inr] by (simp add: state_from_def)
qed

lemma onRequest_step:
  "closures s rid = None \<Longrightarrow> step cfg lib (Request rid req) s = onRequest cfg lib rid req s"
  by (simp add: step_def)

subsection \<open>Headers\<close>

lemma fold_copy_header:
  "\<not> res_headersSent r \<Longrightarrow>
   fold_err copy_header hs r
     = Inr (r\<lparr> res_headers := res_headers r ++ map_of (rev (forwarded hs)) \<rparr>)"
proof (induction hs arbitrary: r)
  case Nil
  then show ?case by (simp add: forwarded_def)
next
  case (Cons a hs)
  show ?case
  proof (cases "fst a \<in> set NO_PROXY_HEADERS")
    case True
    then have "copy_header a r = Inr r" by (simp add: copy_header_def)
    then show ?thesis using Cons True by (simp add: forwarded_def)
  next
    case False
    let ?r1 = "r\<lparr> res_headers := (res_headers r)(toLowerCase (fst a) \<mapsto> snd a) \<rparr>"
    have a: "copy_header a r = Inr ?r1"
      using False Cons.prems by (simp add: copy_header_def setHeader_def)
    have "fold_err copy_header hs ?r1
        = Inr (?r1\<lparr> res_headers := res_headers ?r1 ++ map_of (rev (forwarded hs)) \<rparr>)"
      by (rule Cons.IH) (use Cons.prems in simp)
    moreover have "res_headers ?r1 ++ map_of (rev (forwarded hs))
        = res_headers r ++ map_of (rev (forwarded (a # hs)))"
      using False by (simp add: forwarded_def map_add_upd_left)
    ultimately show ?thesis using a by simp
  qed
qed

lemma copy_response_headers_new:
  "\<not> res_headersSent r \<Longrightarrow>
   copy_response_headers ores r
     = Inr (r\<lparr> res_headers := res_headers r ++ map_of (rev (forwarded (ores_headers ores))) \<rparr>)"
  by (simp add: copy_response_headers_def fold_copy_header)

lemma lower_names [simp]:
  "toLowerCase ''Last-Modified'' = ''last-modified''"
  "toLowerCase ''Content-Type'' = ''content-type''"
  "toLowerCase ''ETag'' = ''etag''"
  "toLowerCase ''Content-Length'' = ''content-length''"
  by code_simp+

subsection \<open>A hit\<close>

lemma reachable_new:
  assumes "reachable cfg lib s" "closures s rid = Some c" "untouched (c_phase c)"
  shows "responses s rid = Some new_response"
proof -
  have i: "inv s" using assms(1) by (rule reachable_inv)
  obtain res where res: "responses s rid = Some res"
    using i assms(2) unfolding inv_def inv_res_def by blast
  have "res_ok c res" using i assms(2) res by (rule inv_res_ok)
  then show ?thesis using assms(3) res by (simp add: res_ok_def)
qed

lemma store_hit:
  assumes "reachable cfg lib s" "closures s rid = Some c" "c_phase c = AwaitStat"
    "files s (c_file c) = Some (File content t)"
  shows "step cfg lib (StatDone rid) s =
     bind_err
       (update_res rid
          (streamFile lib (c_file c)
             \<lparr> st_size = length content, st_mtime = t, st_isDirectory = False \<rparr> (c_req c)
             (Inr content)) s)
       (\<lambda>s1. Inr (set_closure rid (c\<lparr> c_phase := Closed \<rparr>) s1))
     \<and> responses s rid = Some new_response"
proof -
  have new: "responses s rid = Some new_response"
    using assms(1,2) by (rule reachable_new) (simp add: assms(3))
  show ?thesis
    using assms(2-4) new
    by (simp add: step_def onStat_def fs_stat_def fs_read_def Let_def)
qed

subsection \<open>A response with a status outside [200,300)\<close>

lemma response_failure:
  assumes "reachable cfg lib s" "closures s rid = Some c" "c_phase c = AwaitResponse"
    "ores_statusCode ores < 200 \<or> 300 \<le> ores_statusCode ores"
    "100 \<le> ores_statusCode ores" "ores_statusCode ores \<le> 999"
    "map_of (inProgress s) (c_file c) = Some ws"
  obtains s' where "step cfg lib (Response rid ores) s = Inr s'"
    "files s' = files s" "upstream s' = upstream s"
    "closures s' = (closures s)(rid \<mapsto> c\<lparr> c_phase := Closed \<rparr>)" "c_pipe c = NoPipe"
    "inProgress s' = AList.delete (c_file c) (inProgress s)"
    "responses s' rid =
       Some \<lparr> statusCode = ores_statusCode ores,
              res_headers = map_of (rev (forwarded (ores_headers ores))),
              res_body = [], res_ended = True, res_headersSent = True \<rparr>"
    "\<And>w. w \<in> set ws \<Longrightarrow>
       responses s' (w_id w) =
         Some \<lparr> statusCode = ores_statusCode ores, res_headers = Map.empty, res_body = [],
                res_ended = True, res_headersSent = True \<rparr>"
proof -
  have i: "inv s" using assms(1) by (rule reachable_inv)
  have new: "responses s rid = Some new_response"
    using assms(1,2) by (rule reachable_new) (simp add: assms(3))
  have ok: "res_ok c new_response" using i assms(2) new by (rule inv_res_ok)
  then have np: "c_pipe c = NoPipe" using assms(3) by (simp add: res_ok_def)
  let ?code = "ores_statusCode ores"
  let ?res1 = "\<lparr> statusCode = ?code, res_headers = map_of (rev (forwarded (ores_headers ores))),
                 res_body = [], res_ended = False, res_headersSent = False \<rparr>"
  let ?done = "\<lparr> statusCode = ?code, res_headers = Map.empty, res_body = [],
                 res_ended = True, res_headersSent = True \<rparr>"
  have cp: "copy_response_headers ores (new_response\<lparr> statusCode := ?code \<rparr>) = Inr ?res1"
    by (simp add: copy_response_headers_new new_response_def)
  let ?s1 = "s\<lparr> responses := (responses s)(rid \<mapsto> ?res1) \<rparr>"
  have q: "distinct (map w_id ws)"
    "\<And>w. w \<in> set ws \<Longrightarrow> responses s (w_id w) = Some new_response"
    "\<And>w. w \<in> set ws \<Longrightarrow> w_id w \<noteq> rid"
    using i assms(2,3,7) unfolding inv_def inv_queue_def by fastforce+
  have e: "end_with ?code new_response = Inr ?done"
    using assms(5,6) by (simp add: end_with_def res_end_def implicitHeader_def new_response_def)
  obtain s2 where s2: "forEach_waiter (\<lambda>w. end_with ?code) ws ?s1 = Inr s2"
    "\<forall>w \<in> set ws. responses s2 (w_id w) = Some ?done"
    using forEach_waiter_new [of ws ?s1 "\<lambda>w. end_with ?code" "\<lambda>w. ?done"] q e by auto
  note fr = forEach_waiter_Inr [OF s2(1)]
  have "rid \<notin> w_id ` set ws" using q(3) by auto
  moreover have "\<forall>r. r \<notin> w_id ` set ws \<longrightarrow> responses s2 r = responses ?s1 r"
    using fr by blast
  ultimately have "responses s2 rid = responses ?s1 rid" by blast
  then have rid: "responses s2 rid = Some ?res1" by simp
  let ?s3 = "checkIdle (s2\<lparr> inProgress := AList.delete (c_file c) (inProgress s2) \<rparr>)"
  have fin: "finish_statusCode (c_file c) ?code ?s1 = Inr ?s3"
    using assms(7) s2(1) by (simp add: finish_statusCode_def)
  have en: "res_end ?res1 = Inr (?res1\<lparr> res_ended := True, res_headersSent := True \<rparr>)"
    using assms(5,6) by (simp add: res_end_def implicitHeader_def)
  let ?s4 = "?s3\<lparr> responses := (responses ?s3)(rid \<mapsto> ?res1\<lparr> res_ended := True, res_headersSent := True \<rparr>) \<rparr>"
  have up: "update_res rid res_end ?s3 = Inr ?s4"
    using rid en by (intro update_res_Some) auto
  let ?s' = "set_closure rid (c\<lparr> c_phase := Closed \<rparr>) ?s4"
  have st: "step cfg lib (Response rid ores) s = Inr ?s'"
    using assms(2,3,4) new cp fin up
    by (simp add: step_def onResponse_def Let_def)
  show ?thesis
  proof (rule that [OF st])
    show "files ?s' = files s" using fr by simp
    show "upstream ?s' = upstream s" using fr by simp
    show "closures ?s' = (closures s)(rid \<mapsto> c\<lparr> c_phase := Closed \<rparr>)" using fr by simp
    show "c_pipe c = NoPipe" by (rule np)
    show "inProgress ?s' = AList.delete (c_file c) (inProgress s)" using fr by simp
    show "responses ?s' rid =
       Some \<lparr> statusCode = ?code, res_headers = map_of (rev (forwarded (ores_headers ores))),
              res_body = [], res_ended = True, res_headersSent = True \<rparr>"
      by simp
    show "responses ?s' (w_id w) = Some ?done" if "w \<in> set ws" for w
      using s2(2) q(3) that by simp
  qed
qed

subsection \<open>A request that is over\<close>

lemma closed_step:
  assumes "inv s" "closures s rid = Some c" "c_phase c = Closed" "c_pipe c = NoPipe"
    "responses s rid = Some r" "event_id e = rid" "step cfg lib e s = Inr s'"
  shows "files s' = files s
     \<and> (\<exists>c' r'. closures s' rid = Some c' \<and> c_phase c' = Closed \<and> c_pipe c' = NoPipe
           \<and> responses s' rid = Some r' \<and> res_body r' = res_body r)"
proof (cases "\<exists>x. e = OreqError x")
  case False
  then have "s' = s"
    using assms(2-7)
    by (cases e) (auto simp: step_def onPipe_def split: option.splits list.splits)
  then show ?thesis using assms by simp
next
  case True
  then have e: "e = OreqError rid" using assms(6) by auto
  have d: "dispatch cfg lib e rid c r s = Inr s'"
    using assms(2,5,6,7) by (simp add: step_def)
  have body: "res_body r1 = res_body r" if "end_with 500 r = Inr r1" for r1
    using that
    by (auto simp: end_with_def res_end_def implicitHeader_def bind_err_Inr split: if_splits)
  show ?thesis
  proof (cases "c_onerror c")
    case NoListener
    then show ?thesis using d e assms by simp
  next
    case Once
    then obtain s1 where s1: "update_res rid (end_with 500) s = Inr s1"
      "s' = set_closure rid (c\<lparr> c_phase := Closed, c_onerror := NoListener \<rparr>) s1"
      using d e assms(3) by (auto simp: onProxyError_def bind_err_Inr)
    obtain r1 where "end_with 500 r = Inr r1" "responses s1 rid = Some r1"
      using update_res_Inr(9) [OF s1(1) assms(5)] by blast
    then show ?thesis
      using s1(2) update_res_Inr(2) [OF s1(1)] assms(4) body by simp
  next
    case On
    then obtain s1 s2 where s1: "update_res rid (end_with 500) s = Inr s1"
      "finish_statusCode (c_file c) 500 s1 = Inr s2"
      "s' = set_closure rid (c\<lparr> c_phase := Closed \<rparr>) s2"
      using d e assms(3) by (auto simp: onOreqError_def bind_err_Inr)
    obtain r1 where r1: "end_with 500 r = Inr r1" "responses s1 rid = Some r1"
      using update_res_Inr(9) [OF s1(1) assms(5)] by blast
    obtain ws where ws: "map_of (inProgress s1) (c_file c) = Some ws"
      "files s2 = files s1"
      "\<And>x. x \<notin> w_id ` set ws \<Longrightarrow> responses s2 x = responses s1 x"
      using finish_statusCode_Inr [OF s1(2)] by blast
    have "rid \<notin> w_id ` set ws"
    proof
      assume "rid \<in> w_id ` set ws"
      then obtain w where "w \<in> set ws" "w_id w = rid" by auto
      then have "c_phase c = Queued"
        using assms(1,2) ws(1) update_res_Inr(3) [OF s1(1)]
        unfolding inv_def inv_queue_def by fastforce
      then show False using assms(3) by simp
    qed
    then have "responses s2 rid = Some r1" using ws(3) r1(2) by simp
    then show ?thesis
      using s1(3) ws(2) update_res_Inr(2) [OF s1(1)] assms(4) body [OF r1(1)] by simp
  qed
qed

lemma closed_run:
  assumes "reachable cfg lib s" "closures s rid = Some c" "c_phase c = Closed"
    "c_pipe c = NoPipe" "responses s rid = Some r" "\<forall>e \<in> set es. event_id e = rid"
    "run cfg lib es s = Inr s'"
  shows "files s' = files s \<and> (\<exists>r'. responses s' rid = Some r' \<and> res_body r' = res_body r)"
  using assms
proof (induction es arbitrary: s c r)
  case Nil
  then show ?case by simp
next
  case (Cons e es)
  from Cons.prems(7) obtain s1 where s1: "step cfg lib e s = Inr s1"
    "run cfg lib es s1 = Inr s'"
    by (auto split: sum.splits)
  have e: "event_id e = rid" using Cons.prems(6) by simp
  obtain c1 r1 where c1: "files s1 = files s" "closures s1 rid = Some c1" "c_phase c1 = Closed"
    "c_pipe c1 = NoPipe" "responses s1 rid = Some r1" "res_body r1 = res_body r"
    using closed_step [OF reachable_inv [OF Cons.prems(1)] Cons.prems(2-5) e s1(1)] by blast
  have "reachable cfg lib s1" using Cons.prems(1) s1(1) by (rule reachable_step)
  from Cons.IH [OF this c1(2-5) _ s1(2)] Cons.prems(6) c1(1,6) show ?case by simp
qed

section \<open>The claims\<close>

text \<open>
  C3. When the backend answers a cache fill with a status outside [200,300) that Node
  can send (100 to 999), and the key's record is in the registry, the callback returns
  with the file system as it was and the record of the key removed; and no later callback
  of this request changes the file system, so it opens no temporary file and renames
  nothing to the store path.
\<close>

theorem upstream_error_not_stored:
  assumes "reachable cfg lib s" "closures s rid = Some c" "c_phase c = AwaitResponse"
    "ores_statusCode ores < 200 \<or> 300 \<le> ores_statusCode ores"
    "100 \<le> ores_statusCode ores" "ores_statusCode ores \<le> 999"
    "map_of (inProgress s) (c_file c) = Some ws"
  shows "\<exists>s'. step cfg lib (Response rid ores) s = Inr s'
     \<and> files s' = files s
     \<and> map_of (inProgress s') (c_file c) = None
     \<and> (\<forall>es s''. (\<forall>e \<in> set es. event_id e = rid) \<longrightarrow> run cfg lib es s' = Inr s''
            \<longrightarrow> files s'' = files s')"
proof -
  obtain s' where f: "step cfg lib (Response rid ores) s = Inr s'"
    "files s' = files s"
    "closures s' = (closures s)(rid \<mapsto> c\<lparr> c_phase := Closed \<rparr>)" "c_pipe c = NoPipe"
    "inProgress s' = AList.delete (c_file c) (inProgress s)"
    "responses s' rid =
       Some \<lparr> statusCode = ores_statusCode ores,
              res_headers = map_of (rev (forwarded (ores_headers ores))),
              res_body = [], res_ended = True, res_headersSent = True \<rparr>"
    by (rule response_failure [OF assms]) blast
  have r: "reachable cfg lib s'" using assms(1) f(1) by (rule reachable_step)
  have "files s'' = files s'"
    if "\<forall>e \<in> set es. event_id e = rid" "run cfg lib es s' = Inr s''" for es s''
    using closed_run [OF r _ _ _ f(6) that, where c = "c\<lparr> c_phase := Closed \<rparr>"] f(3,4)
    by simp
  then show ?thesis using f(1,2,5) by (auto simp: delete_conv')
qed

theorem upstream_error_not_stored_witness:
  "\<exists>s'. step example_config example_lib (Response 1 not_found)
            (state_after example_config example_lib miss_then_queue) = Inr s'
     \<and> files s' = files (state_after example_config example_lib miss_then_queue)
     \<and> map_of (inProgress s') ''/cache/statusCode/404/x.png'' = None
     \<and> (\<forall>es s''. (\<forall>e \<in> set es. event_id e = 1) \<longrightarrow> run example_config example_lib es s' = Inr s''
            \<longrightarrow> files s'' = files s')"
proof -
  let ?c = "\<lparr> c_req = example_request ''GET'' ''/statusCode/404/x.png'',
              c_file = ''/cache/statusCode/404/x.png'', c_phase = AwaitResponse,
              c_ores = None, c_ws = [], c_pipe = NoPipe, c_onerror = On \<rparr>"
  let ?ws = "[\<lparr> w_id = 2, w_req = example_request ''GET'' ''/statusCode/404/x.png'' \<rparr>]"
  have c: "closures (state_after example_config example_lib miss_then_queue) 1 = Some ?c"
    by code_simp
  have q: "map_of (inProgress (state_after example_config example_lib miss_then_queue))
      (c_file ?c) = Some ?ws"
    by code_simp
  have st: "ores_statusCode not_found < 200 \<or> 300 \<le> ores_statusCode not_found"
    "100 \<le> ores_statusCode not_found" "ores_statusCode not_found \<le> 999"
    by (simp_all add: not_found_def)
  show ?thesis
    using upstream_error_not_stored [OF state_after_reachable c _ st q] by simp
qed

theorem upstream_status_unsendable_counterexample:
  "map_of (inProgress (state_after example_config example_lib miss_then_queue))
      ''/cache/statusCode/404/x.png''
     = Some [\<lparr> w_id = 2, w_req = example_request ''GET'' ''/statusCode/404/x.png'' \<rparr>]
   \<and> thrown (step example_config example_lib (Response 1 unsendable)
        (state_after example_config example_lib miss_then_queue)) = Some RangeError"
  by code_simp







text \<open>
  C8. A request answered from the store carries the entity tag
  \<open>"<size>-<mtime>"\<close> of the stored file, a function of its size and modification time
  alone; when the request's If-None-Match header equals that tag, the response is 304
  with an empty body.
\<close>

theorem hit_etag:
  assumes "reachable cfg lib s" "closures s rid = Some c" "c_phase c = AwaitStat"
    "files s (c_file c) = Some (File content t)"
  shows "\<exists>s' r. step cfg lib (StatDone rid) s = Inr s' \<and> responses s' rid = Some r
     \<and> res_headers r ''etag''
          = Some (''\"'' @ format_nat (length content) @ ''-'' @ format_int t @ ''\"'')
     \<and> (map_of (req_headers (c_req c)) ''if-none-match''
            = Some (''\"'' @ format_nat (length content) @ ''-'' @ format_int t @ ''\"'')
          \<longrightarrow> statusCode r = 304 \<and> res_body r = [] \<and> res_ended r)"
  using store_hit [OF assms]
  by (auto simp: streamFile_def etag_of_def Let_def setHeader_def end_with_def res_end_def
      res_write_def implicitHeader_def update_res_def new_response_def)

theorem hit_etag_witness:
  "\<exists>s' r. step example_config example_lib (StatDone 1)
       (state_from cached_fs example_config example_lib
          [Request 1 (conditional_request ''GET'' ''/x.png'' ''\"5-7\"'')]) = Inr s'
     \<and> responses s' 1 = Some r \<and> res_headers r ''etag'' = Some ''\"5-7\"''
     \<and> statusCode r = 304 \<and> res_body r = [] \<and> res_ended r"
proof -
  let ?req = "conditional_request ''GET'' ''/x.png'' ''\"5-7\"''"
  let ?s = "state_from cached_fs example_config example_lib [Request 1 ?req]"
  let ?c = "\<lparr> c_req = ?req, c_file = ''/cache/x.png'', c_phase = AwaitStat, c_ores = None,
              c_ws = [], c_pipe = NoPipe, c_onerror = NoListener \<rparr>"
  have c: "closures ?s 1 = Some ?c" by code_simp
  have f: "files ?s (c_file ?c) = Some (File ''hello'' 7)" by code_simp
  have e: "format_nat (length ''hello'') = ''5''" "format_int 7 = ''7''"
    by code_simp+
  have m: "map_of (req_headers (c_req ?c)) ''if-none-match'' = Some ''\"5-7\"''"
    by (simp add: conditional_request_def)
  show ?thesis
    using hit_etag [OF state_from_reachable c _ f, unfolded e m] by simp
qed

text \<open>
  C9. The headers of a response answered from the store are exactly Last-Modified,
  Content-Type and ETag, computed from the file's stat and name, and Content-Length when
  the 304 branch is not taken; nothing else is set, so no header of the backend's response
  that filled the store is sent again.
\<close>

theorem hit_headers:
  assumes "reachable cfg lib s" "closures s rid = Some c" "c_phase c = AwaitStat"
    "files s (c_file c) = Some (File content t)"
  shows "\<exists>s' r. step cfg lib (StatDone rid) s = Inr s' \<and> responses s' rid = Some r
     \<and> res_headers r =
         (if map_of (req_headers (c_req c)) ''if-none-match''
               = Some (''\"'' @ format_nat (length content) @ ''-'' @ format_int t @ ''\"'')
          then [''last-modified'' \<mapsto> toUTCString lib t,
                ''content-type'' \<mapsto> mime_lookup lib (c_file c),
                ''etag'' \<mapsto> ''\"'' @ format_nat (length content) @ ''-'' @ format_int t @ ''\"'']
          else [''last-modified'' \<mapsto> toUTCString lib t,
                ''content-type'' \<mapsto> mime_lookup lib (c_file c),
                ''etag'' \<mapsto> ''\"'' @ format_nat (length content) @ ''-'' @ format_int t @ ''\"'',
                ''content-length'' \<mapsto> format_nat (length content)])"
  using store_hit [OF assms]
  by (auto simp: streamFile_def etag_of_def Let_def setHeader_def end_with_def res_end_def
      res_write_def implicitHeader_def update_res_def new_response_def)

theorem hit_headers_witness:
  "\<exists>s' r. step example_config example_lib (StatDone 1)
       (state_from cached_fs example_config example_lib
          [Request 1 (example_request ''GET'' ''/x.png'')]) = Inr s'
     \<and> responses s' 1 = Some r
     \<and> res_headers r =
          [''last-modified'' \<mapsto> ''Thu, 01 Jan 1970 00:00:00 GMT'', ''content-type'' \<mapsto> ''image/png'',
           ''etag'' \<mapsto> ''\"5-7\"'', ''content-length'' \<mapsto> ''5'']"
proof -
  let ?req = "example_request ''GET'' ''/x.png''"
  let ?s = "state_from cached_fs example_config example_lib [Request 1 ?req]"
  let ?c = "\<lparr> c_req = ?req, c_file = ''/cache/x.png'', c_phase = AwaitStat, c_ores = None,
              c_ws = [], c_pipe = NoPipe, c_onerror = NoListener \<rparr>"
  have c: "closures ?s 1 = Some ?c" by code_simp
  have f: "files ?s (c_file ?c) = Some (File ''hello'' 7)" by code_simp
  have e: "format_nat (length ''hello'') = ''5''" "format_int 7 = ''7''"
    by code_simp+
  have m: "map_of (req_headers (c_req ?c)) ''if-none-match'' = None"
    by (simp add: example_request_def)
  have l: "toUTCString example_lib 7 = ''Thu, 01 Jan 1970 00:00:00 GMT''"
    "mime_lookup example_lib (c_file ?c) = ''image/png''"
    by (simp_all add: example_lib_def)
  show ?thesis
    using hit_headers [OF state_from_reachable c _ f, unfolded e m l] by simp
qed

text \<open>
  C10. For a HEAD request answered from the store, If-None-Match is compared first: when
  it equals the tag the response is 304 and has no Content-Length header; otherwise the
  response is 200 with Content-Length set. In both cases the body is empty.
\<close>

theorem hit_head:
  assumes "reachable cfg lib s" "closures s rid = Some c" "c_phase c = AwaitStat"
    "files s (c_file c) = Some (File content t)" "req_method (c_req c) = ''HEAD''"
  shows "\<exists>s' r. step cfg lib (StatDone rid) s = Inr s' \<and> responses s' rid = Some r
     \<and> (if map_of (req_headers (c_req c)) ''if-none-match''
               = Some (''\"'' @ format_nat (length content) @ ''-'' @ format_int t @ ''\"'')
         then statusCode r = 304 \<and> res_headers r ''content-length'' = None
         else statusCode r = 200
              \<and> res_headers r ''content-length'' = Some (format_nat (length content)))
     \<and> res_body r = [] \<and> res_ended r"
  using store_hit [OF assms(1-4)] assms(5)
  by (auto simp: streamFile_def etag_of_def Let_def setHeader_def end_with_def res_end_def
      res_write_def implicitHeader_def update_res_def new_response_def)

theorem hit_head_witness:
  "(\<exists>s' r. step example_config example_lib (StatDone 1)
       (state_from cached_fs example_config example_lib
          [Request 1 (conditional_request ''HEAD'' ''/x.png'' ''\"5-7\"'')]) = Inr s'
     \<and> responses s' 1 = Some r
     \<and> statusCode r = 304 \<and> res_headers r ''content-length'' = None
     \<and> res_body r = [] \<and> res_ended r)
   \<and> (\<exists>s' r. step example_config example_lib (StatDone 1)
       (state_from cached_fs example_config example_lib
          [Request 1 (conditional_request ''HEAD'' ''/x.png'' ''\"4-7\"'')]) = Inr s'
     \<and> responses s' 1 = Some r
     \<and> statusCode r = 200 \<and> res_headers r ''content-length'' = Some ''5''
     \<and> res_body r = [] \<and> res_ended r)"
proof -
  let ?req = "conditional_request ''HEAD'' ''/x.png'' ''\"5-7\"''"
  let ?s = "state_from cached_fs example_config example_lib [Request 1 ?req]"
  let ?c = "\<lparr> c_req = ?req, c_file = ''/cache/x.png'', c_phase = AwaitStat, c_ores = None,
              c_ws = [], c_pipe = NoPipe, c_onerror = NoListener \<rparr>"
  let ?req2 = "conditional_request ''HEAD'' ''/x.png'' ''\"4-7\"''"
  let ?s2 = "state_from cached_fs example_config example_lib [Request 1 ?req2]"
  let ?c2 = "\<lparr> c_req = ?req2, c_file = ''/cache/x.png'', c_phase = AwaitStat, c_ores = None,
              c_ws = [], c_pipe = NoPipe, c_onerror = NoListener \<rparr>"
  have c: "closures ?s 1 = Some ?c" by code_simp
  have f: "files ?s (c_file ?c) = Some (File ''hello'' 7)" by code_simp
  have c2: "closures ?s2 1 = Some ?c2" by code_simp
  have f2: "files ?s2 (c_file ?c2) = Some (File ''hello'' 7)" by code_simp
  have e: "format_nat (length ''hello'') = ''5''" "format_int 7 = ''7''"
    by code_simp+
  have m: "map_of (req_headers (c_req ?c)) ''if-none-match'' = Some ''\"5-7\"''"
    "map_of (req_headers (c_req ?c2)) ''if-none-match'' = Some ''\"4-7\"''"
    by (simp_all add: conditional_request_def)
  have h: "req_method (c_req ?c) = ''HEAD''" "req_method (c_req ?c2) = ''HEAD''"
    by (simp_all add: conditional_request_def)
  have "\<exists>s' r. step example_config example_lib (StatDone 1) ?s = Inr s'
     \<and> responses s' 1 = Some r
     \<and> statusCode r = 304 \<and> res_headers r ''content-length'' = None
     \<and> res_body r = [] \<and> res_ended r"
    using hit_head [OF state_from_reachable c _ f h(1), unfolded e m] by simp
  moreover have "\<exists>s' r. step example_config example_lib (StatDone 1) ?s2 = Inr s'
     \<and> responses s' 1 = Some r
     \<and> statusCode r = 200 \<and> res_headers r ''content-length'' = Some ''5''
     \<and> res_body r = [] \<and> res_ended r"
    using hit_head [OF state_from_reachable c2 _ f2 h(2), unfolded e m] by simp
  ultimately show ?thesis by blast
qed

text \<open>
  C7. With \<open>opts.noProxyHeaders = ['x-internal']\<close> the request header \<open>x-internal\<close> is
  still sent to the backend and \<open>date\<close> is still left out, and the same for the backend's
  headers copied to the client: the constant list is used, not the configured one. The
  host header is the backend's.
\<close>

theorem noProxyHeaders_not_applied:
  "noProxyHeaders (FsCachingServer configured_opts) = [''x-internal'']
   \<and> map (\<lambda>u. (u_headers u ''x-internal'', u_headers u ''date'', u_headers u ''host''))
         (upstream (state_after (FsCachingServer configured_opts) example_lib
            [Request 1 login_request]))
       = [(Some ''secret'', None, Some ''backend:8000'')]
   \<and> map_option (\<lambda>r. (res_headers r ''x-internal'', res_headers r ''date''))
         (responses (state_after (FsCachingServer configured_opts) example_lib
            [Request 1 login_request, Response 1 login_response]) 1)
       = Some (Some ''trace'', None)"
  by code_simp

text \<open>
  C6 (amended). For a request with a new id, the pathname is percent-decoded and
  normalized. When decoding fails the response is ended with 400, nothing is sent to the
  backend, the registry and the file system are not touched, and no stat is pending (the
  request is over). A decoded pathname that begins with a slash and holds no NUL byte
  is not rejected, whatever its dot segments: the request is proxied, or looked up at the
  cache directory joined with the normalized path. The normalized path has no \<open>.\<close> and no
  \<open>..\<close> segment left, and when the cache directory is itself a normalized absolute path,
  the file looked up is the cache directory followed by the normalized path.
\<close>

theorem path_resolution:
  assumes "closures s rid = None"
  shows "case decodeURIComponent (req_pathname req) of
      None \<Rightarrow>
        (\<exists>s'. step cfg lib (Request rid req) s = Inr s'
           \<and> files s' = files s \<and> inProgress s' = inProgress s \<and> upstream s' = upstream s
           \<and> responses s' rid =
               Some \<lparr> statusCode = 400, res_headers = Map.empty, res_body = [],
                      res_ended = True, res_headersSent = True \<rparr>
           \<and> (\<exists>c. closures s' rid = Some c \<and> c_phase c = Closed \<and> c_pipe c = NoPipe
                  \<and> c_onerror c = NoListener))
    | Some d \<Rightarrow>
        (d \<noteq> [] \<and> hd d = CHR ''/'' \<and> CHR 0x00 \<notin> set d \<and> CHR 0x00 \<notin> set (cacheDir cfg) \<longrightarrow>
           (\<exists>s'. step cfg lib (Request rid req) s = Inr s'
              \<and> files s' = files s \<and> inProgress s' = inProgress s
              \<and> responses s' rid = Some new_response
              \<and> (\<exists>c. closures s' rid = Some c
                   \<and> (c_phase c = Proxying
                       \<or> c_phase c = AwaitStat
                         \<and> c_file c = path_join (cacheDir cfg) (posix_normalize d))))
           \<and> (\<forall>seg \<in> set (split_slash (posix_normalize d)). seg \<noteq> ''.'' \<and> seg \<noteq> ''..'')
           \<and> (cacheDir cfg \<noteq> [] \<and> hd (cacheDir cfg) = CHR ''/''
                 \<and> last (cacheDir cfg) \<noteq> CHR ''/''
                 \<and> posix_normalize (cacheDir cfg) = cacheDir cfg
                \<longrightarrow> path_join (cacheDir cfg) (posix_normalize d)
                      = cacheDir cfg @ posix_normalize d))"
proof (cases "decodeURIComponent (req_pathname req)")
  case None
  then show ?thesis
    using assms
    by (simp add: onRequest_step onRequest_def end_with_def res_end_def implicitHeader_def
        update_res_def new_response_def send_upstream_def)
next
  case (Some d)
  have "?thesis = (d \<noteq> [] \<and> hd d = CHR ''/'' \<and> CHR 0x00 \<notin> set d \<and> CHR 0x00 \<notin> set (cacheDir cfg) \<longrightarrow>
           (\<exists>s'. step cfg lib (Request rid req) s = Inr s'
              \<and> files s' = files s \<and> inProgress s' = inProgress s
              \<and> responses s' rid = Some new_response
              \<and> (\<exists>c. closures s' rid = Some c
                   \<and> (c_phase c = Proxying
                       \<or> c_phase c = AwaitStat
                         \<and> c_file c = path_join (cacheDir cfg) (posix_normalize d))))
           \<and> (\<forall>seg \<in> set (split_slash (posix_normalize d)). seg \<noteq> ''.'' \<and> seg \<noteq> ''..'')
           \<and> (cacheDir cfg \<noteq> [] \<and> hd (cacheDir cfg) = CHR ''/''
                 \<and> last (cacheDir cfg) \<noteq> CHR ''/''
                 \<and> posix_normalize (cacheDir cfg) = cacheDir cfg
                \<longrightarrow> path_join (cacheDir cfg) (posix_normalize d)
                      = cacheDir cfg @ posix_normalize d))"
    by (simp add: Some)
  moreover have "\<exists>s'. step cfg lib (Request rid req) s = Inr s'
              \<and> files s' = files s \<and> inProgress s' = inProgress s
              \<and> responses s' rid = Some new_response
              \<and> (\<exists>c. closures s' rid = Some c
                   \<and> (c_phase c = Proxying
                       \<or> c_phase c = AwaitStat
                         \<and> c_file c = path_join (cacheDir cfg) (posix_normalize d)))"
    if "CHR 0x00 \<notin> set d" "CHR 0x00 \<notin> set (cacheDir cfg)"
  proof -
    have "set (path_join (cacheDir cfg) (posix_normalize d))
        \<subseteq> set (cacheDir cfg) \<union> set d \<union> {CHR ''/'', CHR ''.''}"
      using path_join_chars [of "cacheDir cfg" "posix_normalize d"] posix_normalize_chars [of d]
      by blast
    then have "CHR 0x00 \<notin> set (path_join (cacheDir cfg) (posix_normalize d))"
      using that by auto
    then show ?thesis
      using assms Some by (auto simp: onRequest_step onRequest_def Let_def)
  qed
  moreover have "seg \<noteq> ''.'' \<and> seg \<noteq> ''..''"
    if "d \<noteq> []" "hd d = CHR ''/''" "seg \<in> set (split_slash (posix_normalize d))" for seg
    using that by (rule normalize_absolute_segments)
  moreover have "path_join (cacheDir cfg) (posix_normalize d) = cacheDir cfg @ posix_normalize d"
    if "d \<noteq> []" "hd d = CHR ''/''" "cacheDir cfg \<noteq> []" "hd (cacheDir cfg) = CHR ''/''"
      "last (cacheDir cfg) \<noteq> CHR ''/''" "posix_normalize (cacheDir cfg) = cacheDir cfg"
    using that(3-6) that(1,2) by (rule path_join_under)
  ultimately show ?thesis by blast
qed

theorem path_resolution_witness:
  "(\<exists>s'. step example_config example_lib (Request 1 (example_request ''GET'' ''/%zz.png''))
            (start Map.empty) = Inr s'
      \<and> responses s' 1 =
           Some \<lparr> statusCode = 400, res_headers = Map.empty, res_body = [], res_ended = True,
                  res_headersSent = True \<rparr>
      \<and> upstream s' = []
      \<and> (\<exists>c. closures s' 1 = Some c \<and> c_phase c = Closed \<and> c_pipe c = NoPipe))
   \<and> (\<exists>s'. step example_config example_lib
              (Request 1 (example_request ''GET'' ''/a/./b/../../x.png'')) (start Map.empty) = Inr s'
      \<and> responses s' 1 = Some new_response
      \<and> (\<exists>c. closures s' 1 = Some c \<and> c_phase c = AwaitStat \<and> c_file c = ''/cache/x.png''))
   \<and> split_slash (posix_normalize ''/a/./b/../../x.png'') = ['''', ''x.png'']"
proof -
  let ?r1 = "example_request ''GET'' ''/%zz.png''"
  let ?r2 = "example_request ''GET'' ''/a/./b/../../x.png''"
  have fresh: "closures (start Map.empty) 1 = None" by (simp add: start_def)
  have d1: "decodeURIComponent (req_pathname ?r1) = None"
    by code_simp
  have d2: "decodeURIComponent (req_pathname ?r2) = Some ''/a/./b/../../x.png''"
    by code_simp
  have j: "path_join (cacheDir example_config) (posix_normalize ''/a/./b/../../x.png'')
      = ''/cache/x.png''"
    by code_simp
  have m: "req_method ?r2 \<in> set (cacheMethods example_config)"
    "regex example_config (posix_normalize ''/a/./b/../../x.png'')"
    by code_simp+
  have n: "CHR 0x00 \<notin> set ''/a/./b/../../x.png''" "CHR 0x00 \<notin> set (cacheDir example_config)"
    by code_simp+
  have sp: "split_slash (posix_normalize ''/a/./b/../../x.png'') = ['''', ''x.png'']"
    by code_simp
  have "\<exists>s'. step example_config example_lib (Request 1 ?r1) (start Map.empty) = Inr s'
      \<and> responses s' 1 =
           Some \<lparr> statusCode = 400, res_headers = Map.empty, res_body = [], res_ended = True,
                  res_headersSent = True \<rparr>
      \<and> upstream s' = []
      \<and> (\<exists>c. closures s' 1 = Some c \<and> c_phase c = Closed \<and> c_pipe c = NoPipe)"
    using path_resolution [OF fresh, of example_config example_lib ?r1, unfolded d1]
    by (auto simp: start_def)
  moreover have "\<exists>s'. step example_config example_lib (Request 1 ?r2) (start Map.empty) = Inr s'
      \<and> responses s' 1 = Some new_response
      \<and> (\<exists>c. closures s' 1 = Some c \<and> c_phase c = AwaitStat \<and> c_file c = ''/cache/x.png'')"
  proof -
    obtain s' c where s': "step example_config example_lib (Request 1 ?r2) (start Map.empty) = Inr s'"
      "responses s' 1 = Some new_response" "closures s' 1 = Some c"
      "c_phase c = Proxying \<or> c_phase c = AwaitStat \<and> c_file c = ''/cache/x.png''"
      using path_resolution [OF fresh, of example_config example_lib ?r2, unfolded d2] n
      by (auto simp: j)
    have "c_phase c \<noteq> Proxying"
      using s'(1,3) m d2 fresh by (auto simp: onRequest_step onRequest_def Let_def split: if_splits)
    then show ?thesis using s' by auto
  qed
  ultimately show ?thesis using sp by blast
qed

theorem traversal_path_not_rejected_counterexample:
  "map_option (\<lambda>r. (statusCode r, res_ended r))
     (responses (state_after example_config example_lib
        [Request 1 (example_request ''GET'' ''/../../x.png'')]) 1) = Some (200, False)
   \<and> map_option (\<lambda>c. (c_phase c, c_file c))
     (closures (state_after example_config example_lib
        [Request 1 (example_request ''GET'' ''/../../x.png'')]) 1)
       = Some (AwaitStat, ''/cache/x.png'')"
  by code_simp

end
